theory Spec2Isabelle
  imports Main "HOL-Library.Word"
begin

section \<open>The ping server's connection handler (examples/pingserver/ping\_iouring\_server.cc)\<close>

subsection \<open>Socket error codes\<close>

text \<open>
  A \<open>system::error_code\<close> is either success (\<open>!ec\<close> holds) or carries an error
  condition. The handler only ever tests it for success and compares it with two
  conditions of \<open>std::errc\<close>, so every other condition is kept apart by its errno.
\<close>

datatype errc = connection_aborted | connection_reset | other_errc nat

datatype error_code = ec_success | ec_error errc

text \<open>
  \<^verbatim>\<open>
  bool is_conn_closed(const system::error_code& ec) {
    return (ec == std::errc::connection_aborted) || (ec == std::errc::connection_reset);
  }
  \<close>
\<close>

definition is_conn_closed :: "error_code \<Rightarrow> bool" where
  "is_conn_closed ec = (ec = ec_error connection_aborted \<or> ec = ec_error connection_reset)"

subsection \<open>The environment of one connection task\<close>

text \<open>
  \<open>PingCommand\<close> is declared in another file (examples/pingserver/ping\_command.h),
  so the handler is modelled for any command object: a state of type \<open>'c\<close>,
  \<open>Decode\<close>, which is given the bytes the preceding \<open>read_some\<close> stored in
  \<open>read_buffer()\<close> (the source passes their number, \<open>res\<close>) and answers whether a
  request was decoded, and \<open>reply\<close>, the buffer to send back.
\<close>

record 'c PingCommand =
  Decode :: "'c \<Rightarrow> string \<Rightarrow> bool \<times> 'c"
  reply :: "'c \<Rightarrow> string"

text \<open>
  The socket is the task's environment. Each \<open>read_some\<close> and each \<open>write_some\<close>
  suspends the task until its completion arrives; the completions the socket will deliver
  are given in the order of the calls: for a read the bytes received and the error code,
  for a write the number of bytes accepted and the error code. When the completions run
  out, the pending operation never completes and the task stays suspended.
\<close>

type_synonym read_completion = "string \<times> error_code"
type_synonym write_completion = "nat \<times> error_code"

datatype sock_op = ReadSome | WriteSome string | Shutdown_RDWR

text \<open>
  How a run of the handler ends: it returns; or a \<open>CHECK\<close> fails, which logs a fatal
  message and aborts the whole process (glog's \<open>CHECK\<close> is active in every build mode);
  or the task is still suspended in a socket operation.
\<close>

datatype outcome = Returned | CheckFailed error_code | Suspended

record conn_run =
  outcome :: outcome
  ops :: "sock_op list"
  qps :: nat

definition finish :: "outcome \<Rightarrow> conn_run" where
  "finish out = \<lparr>outcome = out, ops = [], qps = 0\<rparr>"

definition issue :: "sock_op \<Rightarrow> conn_run \<Rightarrow> conn_run" where
  "issue op r = r\<lparr>ops := op # ops r\<rparr>"

definition ping_qps_Inc :: "conn_run \<Rightarrow> conn_run" where
  "ping_qps_Inc r = r\<lparr>qps := Suc (qps r)\<rparr>"

text \<open>
  \<^verbatim>\<open>
  void PingConnection::HandleRequests() {
    system::error_code ec;
    while (true) {
      size_t res = socket_.read_some(cmd_.read_buffer(), ec);
      if (is_conn_closed(ec))
        break;
      CHECK(!ec) << ec << "/" << ec.message();
      if (cmd_.Decode(res)) {  // The flow has a bug in case of pipelined requests.
        ping_qps.Inc();
        socket_.write_some(cmd_.reply(), ec);
        CHECK(!ec) << ec << "/" << ec.message();
      }
    }
    socket_.Shutdown(SHUT_RDWR);
  }
  \<close>
  The result records how the run ended, the socket operations issued, in order, and the
  number of \<open>ping_qps.Inc()\<close> calls. Every iteration consumes one read completion,
  so the loop is a recursion on the read completions still to come.
\<close>

fun HandleRequests ::
  "'c PingCommand \<Rightarrow> 'c \<Rightarrow> read_completion list \<Rightarrow> write_completion list \<Rightarrow> conn_run"
where
  "HandleRequests pc cmd [] ws = issue ReadSome (finish Suspended)"
| "HandleRequests pc cmd ((data, ec) # rs) ws =
     issue ReadSome
       (if is_conn_closed ec then issue Shutdown_RDWR (finish Returned)
        else if ec \<noteq> ec_success then finish (CheckFailed ec)
        else
          (let (decoded, cmd') = Decode pc cmd data
           in if decoded then
                ping_qps_Inc
                  (issue (WriteSome (reply pc cmd'))
                     (case ws of
                        [] \<Rightarrow> finish Suspended
                      | (n, wec) # ws' \<Rightarrow>
                          if wec \<noteq> ec_success then finish (CheckFailed wec)
                          else HandleRequests pc cmd' rs ws'))
              else HandleRequests pc cmd' rs ws))"

text \<open>
  A failed \<open>CHECK\<close> ends the process, and with it the Proactor thread, its event loop and
  every other connection task the process hosts.
\<close>

fun aborts_process :: "outcome \<Rightarrow> bool" where
  "aborts_process (CheckFailed ec) = True"
| "aborts_process Returned = False"
| "aborts_process Suspended = False"

text \<open>The shape of a trace in which every read is followed by at most one write.\<close>

fun chunkwise :: "sock_op list \<Rightarrow> bool" where
  "chunkwise [] = True"
| "chunkwise [Shutdown_RDWR] = True"
| "chunkwise (ReadSome # WriteSome b # rest) = chunkwise rest"
| "chunkwise (ReadSome # rest) = chunkwise rest"
| "chunkwise (op # rest) = False"

fun is_write :: "sock_op \<Rightarrow> bool" where
  "is_write (WriteSome b) = True"
| "is_write ReadSome = False"
| "is_write Shutdown_RDWR = False"

fun is_read :: "sock_op \<Rightarrow> bool" where
  "is_read ReadSome = True"
| "is_read (WriteSome b) = False"
| "is_read Shutdown_RDWR = False"

text \<open>
  Two readings of the completions that do not mention the handler: the error of the first
  read completion that carries one, and the replies due for the chunks that \<open>Decode\<close>
  accepts among the reads that complete without error before it (the command state is
  threaded through the calls of \<open>Decode\<close> in the order of the chunks).
\<close>

fun first_read_error :: "read_completion list \<Rightarrow> error_code option" where
  "first_read_error [] = None"
| "first_read_error ((data, ec) # rs) =
     (if ec = ec_success then first_read_error rs else Some ec)"

fun accepted_replies :: "'c PingCommand \<Rightarrow> 'c \<Rightarrow> read_completion list \<Rightarrow> string list" where
  "accepted_replies pc cmd [] = []"
| "accepted_replies pc cmd ((data, ec) # rs) =
     (if ec \<noteq> ec_success then []
      else
        (let (decoded, cmd') = Decode pc cmd data
         in if decoded then reply pc cmd' # accepted_replies pc cmd' rs
            else accepted_replies pc cmd' rs))"

definition read_ok :: "read_completion \<Rightarrow> bool" where
  "read_ok r = (snd r = ec_success)"

definition write_ok :: "write_completion \<Rightarrow> bool" where
  "write_ok w = (snd w = ec_success)"

text \<open>
  A command object to run the handler on: it decodes every non-empty chunk as one
  request, whatever the chunk holds, and always replies \<open>+PONG\<close>, CR, LF.
\<close>

definition pong_command :: "unit PingCommand" where
  "pong_command =
     \<lparr>Decode = (\<lambda>c data. (data \<noteq> [], c)),
      reply = (\<lambda>c. ''+PONG'' @ [CHR 0x0D, CHR 0x0A])\<rparr>"


section \<open>Start-up and shutdown of the ping server (main)\<close>

subsection \<open>Construction of the Proactor\<close>

text \<open>\<open>DEFINE_uint32(queue_depth, 256, "")\<close>: the default of the flag.\<close>

definition FLAGS_queue_depth :: "32 word" where
  "FLAGS_queue_depth = 256"

datatype config_error = ConfigError

record Proactor =
  queue_depth :: "32 word"

definition positive_power_of_two :: "nat \<Rightarrow> bool" where
  "positive_power_of_two n = (n \<in> set (map (\<lambda>k. 2 ^ k) [0..<32]))"

text \<open>
  Modelled from the spec: the constructor of \<open>Proactor\<close> (util/uring/proactor.h and
  proactor.cc) is not part of the sources; \<open>main\<close> only calls it, as
  \<open>Proactor proactor{FLAGS_queue_depth}\<close>. The spec: ``\<open>new(queue_depth)\<close>: constructs
  with a bounded submission capacity; fails with a configuration error if
  \<open>queue_depth\<close> is not a positive power-of-two-compatible size required by the
  underlying mechanism.''
\<close>

definition Proactor_new :: "32 word \<Rightarrow> config_error + Proactor" where
  "Proactor_new depth =
     (if positive_power_of_two (unat depth) then Inr \<lparr>queue_depth = depth\<rparr>
      else Inl ConfigError)"

subsection \<open>The threads of main\<close>

text \<open>
  \<^verbatim>\<open>
  Proactor proactor{FLAGS_queue_depth};
  std::thread t1([&] { proactor.Run(); });

  uring::AcceptServer uring_acceptor(&proactor, false);
  uring_acceptor.AddListener(FLAGS_port, new PingListener);
  uring_acceptor.Run();

  accept_server.TriggerOnBreakSignal([&] {
    uring_acceptor.Stop(true);
    proactor.Stop();
  });

  t1.join();
  accept_server.Stop(true);

  return 0;
  \<close>
  Three threads of control take part: the main thread, the thread \<open>t1\<close> that runs
  \<open>proactor.Run()\<close>, and the callback registered for the break signal. Each performs
  its statements in program order; a schedule, the list of the threads in the order in
  which they are given a turn, fixes the interleaving. A thread whose next statement
  cannot proceed keeps its place when it is given a turn.
\<close>

datatype thread = MainThread | ProactorThread | BreakCallback

datatype event =
    ProactorConstructed
  | ThreadStarted
  | ProactorRunEntered
  | UringAcceptorRun
  | BreakCallbackRegistered
  | UringAcceptorStop bool
  | ProactorStop
  | ProactorRunReturned
  | ThreadJoined
  | AcceptServerStop bool
  | ProgramExit

datatype run_state = NotStarted | Started | Running | RunReturned

record process =
  main_pc :: nat
  callback_pc :: nat
  t1 :: run_state
  stop_requested :: bool
  trace :: "event list"

definition initial :: process where
  "initial = \<lparr>main_pc = 0, callback_pc = 0, t1 = NotStarted, stop_requested = False, trace = []\<rparr>"

definition emit :: "event \<Rightarrow> process \<Rightarrow> process" where
  "emit e s = s\<lparr>trace := trace s @ [e]\<rparr>"

text \<open>
  The main thread. \<open>t1.join()\<close> returns once the function of the thread, that is
  \<open>proactor.Run()\<close>, has returned; after \<open>return 0\<close> the process is gone.
\<close>

definition main_step :: "process \<Rightarrow> process" where
  "main_step s =
     (if main_pc s = 0 then emit ProactorConstructed (s\<lparr>main_pc := 1\<rparr>)
      else if main_pc s = 1 then emit ThreadStarted (s\<lparr>main_pc := 2, t1 := Started\<rparr>)
      else if main_pc s = 2 then emit UringAcceptorRun (s\<lparr>main_pc := 3\<rparr>)
      else if main_pc s = 3 then emit BreakCallbackRegistered (s\<lparr>main_pc := 4\<rparr>)
      else if main_pc s = 4 then
        (if t1 s = RunReturned then emit ThreadJoined (s\<lparr>main_pc := 5\<rparr>) else s)
      else if main_pc s = 5 then emit (AcceptServerStop True) (s\<lparr>main_pc := 6\<rparr>)
      else if main_pc s = 6 then emit ProgramExit (s\<lparr>main_pc := 7\<rparr>)
      else s)"

text \<open>
  Modelled from the spec: \<open>Proactor::Run\<close> and \<open>Proactor::Stop\<close> are not part of the
  sources. The spec: ``\<open>Run()\<close>: enters the event loop on the calling thread; does not
  return until \<open>Stop()\<close> has been observed and all in-flight operations have drained.''
\<close>

definition proactor_step :: "process \<Rightarrow> process" where
  "proactor_step s =
     (if t1 s = Started then emit ProactorRunEntered (s\<lparr>t1 := Running\<rparr>)
      else if t1 s = Running \<and> stop_requested s then
        emit ProactorRunReturned (s\<lparr>t1 := RunReturned\<rparr>)
      else s)"

text \<open>
  The callback runs when the break signal arrives, which it can only after
  \<open>TriggerOnBreakSignal\<close> has registered it: first \<open>uring_acceptor.Stop(true)\<close>,
  then \<open>proactor.Stop()\<close>.
\<close>

definition callback_step :: "process \<Rightarrow> process" where
  "callback_step s =
     (if main_pc s < 4 then s
      else if callback_pc s = 0 then emit (UringAcceptorStop True) (s\<lparr>callback_pc := 1\<rparr>)
      else if callback_pc s = 1 then
        emit ProactorStop (s\<lparr>callback_pc := 2, stop_requested := True\<rparr>)
      else s)"

definition turn :: "process \<Rightarrow> thread \<Rightarrow> process" where
  "turn s th =
     (if main_pc s = 7 then s
      else case th of
             MainThread \<Rightarrow> main_step s
           | ProactorThread \<Rightarrow> proactor_step s
           | BreakCallback \<Rightarrow> callback_step s)"

definition run :: "thread list \<Rightarrow> process" where
  "run schedule = foldl turn initial schedule"

text \<open>
  \<open>guarded a b tr\<close>: in the trace \<open>tr\<close> no \<open>b\<close> happens unless an \<open>a\<close> has happened
  earlier.
\<close>

fun guarded :: "event \<Rightarrow> event \<Rightarrow> event list \<Rightarrow> bool" where
  "guarded a b [] = True"
| "guarded a b (e # es) = (if e = a then True else if e = b then False else guarded a b es)"

text \<open>The invariant of the process that relates the program points to the trace.\<close>

definition shutdown_inv :: "process \<Rightarrow> bool" where
  "shutdown_inv s =
     (guarded (UringAcceptorStop True) ProactorStop (trace s)
      \<and> guarded ProactorStop ProactorRunReturned (trace s)
      \<and> guarded ProactorRunReturned ThreadJoined (trace s)
      \<and> guarded ThreadJoined ProgramExit (trace s)
      \<and> UringAcceptorStop False \<notin> set (trace s)
      \<and> (1 \<le> callback_pc s \<longrightarrow> UringAcceptorStop True \<in> set (trace s))
      \<and> (stop_requested s \<longrightarrow> ProactorStop \<in> set (trace s))
      \<and> (t1 s = RunReturned \<longrightarrow> ProactorRunReturned \<in> set (trace s))
      \<and> (5 \<le> main_pc s \<longrightarrow> ThreadJoined \<in> set (trace s)))"


section \<open>Checked parsing of integers (strings/numbers.cc)\<close>

subsection \<open>Integer arithmetic of the source\<close>

text \<open>
  \<open>IntType\<close> is \<open>int32\<close> or \<open>int64\<close>; the model takes its width \<open>bits\<close> as a
  parameter and keeps values as integers. \<open>wrap\<close> is the two's-complement wrap-around
  of a result that leaves the range of the type. Division and remainder of C++ truncate
  towards zero.
\<close>

definition vmax :: "nat \<Rightarrow> int" where
  "vmax bits = 2 ^ (bits - 1) - 1"

definition vmin :: "nat \<Rightarrow> int" where
  "vmin bits = - (2 ^ (bits - 1))"

definition wrap :: "nat \<Rightarrow> int \<Rightarrow> int" where
  "wrap bits x = (x + 2 ^ (bits - 1)) mod 2 ^ bits - 2 ^ (bits - 1)"

definition cdiv :: "int \<Rightarrow> int \<Rightarrow> int" where
  "cdiv a b = sgn a * sgn b * (\<bar>a\<bar> div \<bar>b\<bar>)"

definition cmod :: "int \<Rightarrow> int \<Rightarrow> int" where
  "cmod a b = a - b * cdiv a b"

subsection \<open>Character tables\<close>

text \<open>
  \<open>kAsciiToInt[256]\<close>: the value of a character as a digit, 36 for a character that is
  no digit in any base. It is indexed by the character as an \<open>unsigned char\<close>.
\<close>

definition kAsciiToInt :: "int list" where
  "kAsciiToInt =
  [
     36, 36, 36, 36, 36, 36, 36, 36, 36, 36, 36, 36, 36, 36, 36, 36,
     36, 36, 36, 36, 36, 36, 36, 36, 36, 36, 36, 36, 36, 36, 36, 36,
     36, 36, 36, 36, 36, 36, 36, 36, 36, 36, 36, 36, 36, 36, 36, 36,
     0, 1, 2, 3, 4, 5, 6, 7, 8, 9,
     36, 36, 36, 36, 36, 36, 36,
     10, 11, 12, 13, 14, 15, 16, 17, 18, 19, 20, 21, 22, 23, 24, 25,
     26, 27, 28, 29, 30, 31, 32, 33, 34, 35,
     36, 36, 36, 36, 36, 36,
     10, 11, 12, 13, 14, 15, 16, 17, 18, 19, 20, 21, 22, 23, 24, 25,
     26, 27, 28, 29, 30, 31, 32, 33, 34, 35,
     36, 36, 36, 36, 36,
     36, 36, 36, 36, 36, 36, 36, 36, 36, 36, 36, 36, 36, 36, 36, 36,
     36, 36, 36, 36, 36, 36, 36, 36, 36, 36, 36, 36, 36, 36, 36, 36,
     36, 36, 36, 36, 36, 36, 36, 36, 36, 36, 36, 36, 36, 36, 36, 36,
     36, 36, 36, 36, 36, 36, 36, 36, 36, 36, 36, 36, 36, 36, 36, 36,
     36, 36, 36, 36, 36, 36, 36, 36, 36, 36, 36, 36, 36, 36, 36, 36,
     36, 36, 36, 36, 36, 36, 36, 36, 36, 36, 36, 36, 36, 36, 36, 36,
     36, 36, 36, 36, 36, 36, 36, 36, 36, 36, 36, 36, 36, 36, 36, 36,
     36, 36, 36, 36, 36, 36, 36, 36, 36, 36, 36, 36, 36, 36, 36, 36]"

text \<open>The contents of the table, by ranges of indices.\<close>

definition table_digit :: "nat \<Rightarrow> int" where
  "table_digit n =
     (if 48 \<le> n \<and> n \<le> 57 then int n - 48
      else if 65 \<le> n \<and> n \<le> 90 then int n - 55
      else if 97 \<le> n \<and> n \<le> 122 then int n - 87
      else 36)"

text \<open>
  \<open>absl::ascii_isspace\<close> is a library function: it holds of the space and of the
  characters \<open>\t\<close>, \<open>\n\<close>, \<open>\v\<close>, \<open>\f\<close> and \<open>\r\<close>.
\<close>

definition ascii_isspace :: "char \<Rightarrow> bool" where
  "ascii_isspace c = ((of_char c :: nat) = 32 \<or> (9 \<le> (of_char c :: nat) \<and> (of_char c :: nat) \<le> 13))"

subsection \<open>Sign and base\<close>

text \<open>
  \<open>safe_parse_sign_and_base(&start, &end, &base, &negative)\<close>. The range
  \<open>[start, end)\<close> is the string \<open>text\<close>; the result is \<open>None\<close> when the function
  returns false and otherwise the range, the base and the sign it stores.
  \<^verbatim>\<open>
  while (start < end && ascii_isspace(start[0])) ++start;
  while (start < end && ascii_isspace(end[-1])) --end;
  if (start >= end) return false;
  *negative_ptr = (start[0] == '-');
  if (*negative_ptr || start[0] == '+') {
    ++start;
    if (start >= end) return false;
  }
  if (base == 0) {
    if (end - start >= 2 && start[0] == '0' && (start[1] == 'x' || start[1] == 'X')) {
      base = 16; start += 2;
    } else if (end - start >= 1 && start[0] == '0') {
      base = 8; start += 1;
    } else {
      base = 10;
    }
  } else if (base == 16) {
    if (end - start >= 2 && start[0] == '0' && (start[1] == 'x' || start[1] == 'X')) {
      start += 2;
    }
  } else if (base >= 2 && base <= 36) {
  } else {
    return false;
  }
  \<close>
\<close>

definition hex_prefixed :: "string \<Rightarrow> bool" where
  "hex_prefixed text =
     (length text \<ge> 2 \<and> text ! 0 = CHR ''0'' \<and> (text ! 1 = CHR ''x'' \<or> text ! 1 = CHR ''X''))"

definition safe_parse_sign_and_base :: "string \<Rightarrow> int \<Rightarrow> (string \<times> int \<times> bool) option" where
  "safe_parse_sign_and_base text base =
     (let t1 = dropWhile ascii_isspace text;
          t2 = rev (dropWhile ascii_isspace (rev t1))
      in if t2 = [] then None
         else
           let negative = (t2 ! 0 = CHR ''-'');
               signed = (negative \<or> t2 ! 0 = CHR ''+'');
               t3 = (if signed then drop 1 t2 else t2)
           in if signed \<and> t3 = [] then None
              else if base = 0 then
                (if hex_prefixed t3 then Some (drop 2 t3, 16, negative)
                 else if length t3 \<ge> 1 \<and> t3 ! 0 = CHR ''0'' then Some (drop 1 t3, 8, negative)
                 else Some (t3, 10, negative))
              else if base = 16 then
                (if hex_prefixed t3 then Some (drop 2 t3, base, negative)
                 else Some (t3, base, negative))
              else if base \<ge> 2 \<and> base \<le> 36 then Some (t3, base, negative)
              else None)"

subsection \<open>Consuming the digits\<close>

text \<open>
  \<open>safe_parse_positive_int<IntType>(start, end, base, value_p)\<close>: \<open>None\<close> when it
  returns false, \<open>Some v\<close> when it returns true and stores \<open>v\<close>. The loop carries
  \<open>value\<close>.
  \<^verbatim>\<open>
  for (; start < end; ++start) {
    unsigned char c = static_cast<unsigned char>(start[0]);
    int digit = kAsciiToInt[c];
    if (value > vmax_over_base) return false;
    value *= base;
    if (digit >= base) return false;
    if (value > vmax - digit) return false;
    value += digit;
  }
  \<close>
\<close>

fun positive_loop :: "nat \<Rightarrow> int \<Rightarrow> int \<Rightarrow> string \<Rightarrow> int option" where
  "positive_loop bits base val [] = Some val"
| "positive_loop bits base val (c # cs) =
     (let digit = kAsciiToInt ! of_char c;
          vmax_over_base = cdiv (vmax bits) base
      in if val > vmax_over_base then None
         else
           let val1 = wrap bits (val * base)
           in if digit \<ge> base then None
              else if val1 > wrap bits (vmax bits - digit) then None
              else positive_loop bits base (wrap bits (val1 + digit)) cs)"

definition safe_parse_positive_int :: "nat \<Rightarrow> string \<Rightarrow> int \<Rightarrow> int option" where
  "safe_parse_positive_int bits text base = positive_loop bits base 0 text"

text \<open>
  \<open>safe_parse_negative_int<IntType>\<close>, with its adjustment of \<open>vmin_over_base\<close> for a
  remainder that an implementation might make positive.
  \<^verbatim>\<open>
  IntType vmin_over_base = vmin / base;
  if (vmin % base > 0) vmin_over_base += 1;
  for (; start < end; ++start) {
    unsigned char c = static_cast<unsigned char>(start[0]);
    int digit = kAsciiToInt[c];
    if (value < vmin_over_base) return false;
    value *= base;
    if (digit >= base) return false;
    if (value < vmin + digit) return false;
    value -= digit;
  }
  \<close>
\<close>

definition vmin_over_base :: "nat \<Rightarrow> int \<Rightarrow> int" where
  "vmin_over_base bits base =
     (if cmod (vmin bits) base > 0 then wrap bits (cdiv (vmin bits) base + 1)
      else cdiv (vmin bits) base)"

fun negative_loop :: "nat \<Rightarrow> int \<Rightarrow> int \<Rightarrow> string \<Rightarrow> int option" where
  "negative_loop bits base val [] = Some val"
| "negative_loop bits base val (c # cs) =
     (let digit = kAsciiToInt ! of_char c
      in if val < vmin_over_base bits base then None
         else
           let val1 = wrap bits (val * base)
           in if digit \<ge> base then None
              else if val1 < wrap bits (vmin bits + digit) then None
              else negative_loop bits base (wrap bits (val1 - digit)) cs)"

definition safe_parse_negative_int :: "nat \<Rightarrow> string \<Rightarrow> int \<Rightarrow> int option" where
  "safe_parse_negative_int bits text base = negative_loop bits base 0 text"

subsection \<open>The entry points\<close>

definition safe_int_internal :: "nat \<Rightarrow> string \<Rightarrow> int \<Rightarrow> int option" where
  "safe_int_internal bits text base =
     (case safe_parse_sign_and_base text base of
        None \<Rightarrow> None
      | Some (digits, base', negative) \<Rightarrow>
          if \<not> negative then safe_parse_positive_int bits digits base'
          else safe_parse_negative_int bits digits base')"

definition safe_strto32_base :: "string \<Rightarrow> int \<Rightarrow> int option" where
  "safe_strto32_base str base = safe_int_internal 32 str base"

definition safe_strto64_base :: "string \<Rightarrow> int \<Rightarrow> int option" where
  "safe_strto64_base str base = safe_int_internal 64 str base"

subsection \<open>What the strings denote\<close>

text \<open>
  The value of a character as a digit: \<open>0\<close> .. \<open>9\<close> are 0 to 9, and the letters, in
  either case, 10 to 35.
\<close>

definition digit_of :: "char \<Rightarrow> int option" where
  "digit_of c =
     (let n = int (of_char c)
      in if 48 \<le> n \<and> n \<le> 57 then Some (n - 48)
         else if 65 \<le> n \<and> n \<le> 90 then Some (n - 55)
         else if 97 \<le> n \<and> n \<le> 122 then Some (n - 87)
         else None)"

definition is_digit_in :: "int \<Rightarrow> char \<Rightarrow> bool" where
  "is_digit_in base c = (case digit_of c of None \<Rightarrow> False | Some d \<Rightarrow> d < base)"

definition digit_string :: "int \<Rightarrow> string \<Rightarrow> bool" where
  "digit_string base ds = list_all (is_digit_in base) ds"

definition digits_value :: "int \<Rightarrow> string \<Rightarrow> int" where
  "digits_value base ds = foldl (\<lambda>v c. v * base + the (digit_of c)) 0 ds"

definition fits :: "nat \<Rightarrow> int \<Rightarrow> bool" where
  "fits bits v = (- (2 ^ (bits - 1)) \<le> v \<and> v < 2 ^ (bits - 1))"

text \<open>Trimming, the optional sign and the base prefix, as separate steps.\<close>

definition trim :: "string \<Rightarrow> string" where
  "trim s = rev (dropWhile ascii_isspace (rev (dropWhile ascii_isspace s)))"

definition negative_sign :: "string \<Rightarrow> bool" where
  "negative_sign t = (case t of [] \<Rightarrow> False | c # cs \<Rightarrow> c = CHR ''-'')"

definition after_sign :: "string \<Rightarrow> string" where
  "after_sign t =
     (case t of [] \<Rightarrow> [] | c # cs \<Rightarrow> if c = CHR ''-'' \<or> c = CHR ''+'' then cs else t)"

definition effective_base :: "int \<Rightarrow> string \<Rightarrow> int" where
  "effective_base base u =
     (if base = 0 then
        (if hex_prefixed u then 16 else if take 1 u = ''0'' then 8 else 10)
      else base)"

definition after_prefix :: "int \<Rightarrow> string \<Rightarrow> string" where
  "after_prefix base u =
     (if base = 0 then
        (if hex_prefixed u then drop 2 u else if take 1 u = ''0'' then drop 1 u else u)
      else if base = 16 \<and> hex_prefixed u then drop 2 u
      else u)"

text \<open>
  The parse as the claim words it: after trimming and consuming the optional sign and the
  base prefix, a non-empty digit string in the base whose value fits the type.
\<close>

definition claimed_parse :: "nat \<Rightarrow> string \<Rightarrow> int \<Rightarrow> int option" where
  "claimed_parse bits s base =
     (let u = after_sign (trim s);
          b = effective_base base u;
          ds = after_prefix base u;
          v = (if negative_sign (trim s) then - digits_value b ds else digits_value b ds)
      in if ds \<noteq> [] \<and> digit_string b ds \<and> fits bits v then Some v else None)"

text \<open>
  The parse with the one exception the code makes: something must follow the sign, and the
  digit string must not be empty, except that in base 0 the string \<open>0\<close> (the octal
  prefix followed by no digit) denotes 0.
\<close>

definition checked_parse :: "nat \<Rightarrow> string \<Rightarrow> int \<Rightarrow> int option" where
  "checked_parse bits s base =
     (let u = after_sign (trim s);
          b = effective_base base u;
          ds = after_prefix base u;
          v = (if negative_sign (trim s) then - digits_value b ds else digits_value b ds)
      in if (ds \<noteq> [] \<or> (base = 0 \<and> u = ''0'')) \<and> digit_string b ds \<and> fits bits v
         then Some v else None)"

text \<open>A string that, after trimming and the sign, is a hexadecimal prefix and nothing more.\<close>

definition lone_hex_prefix :: "string \<Rightarrow> int \<Rightarrow> bool" where
  "lone_hex_prefix s base =
     ((base = 0 \<or> base = 16) \<and> hex_prefixed (after_sign (trim s))
      \<and> length (after_sign (trim s)) = 2)"


section \<open>Left-aligned decimal formatting (strings/numbers.cc)\<close>

text \<open>
  The table of the hundred two-character strings \<open>00\<close> .. \<open>99\<close>, as in the source
  (\<open>two_ASCII_digits[100][2]\<close>).
\<close>

definition two_ASCII_digits :: "string list" where
  "two_ASCII_digits =
    [
     ''00'', ''01'', ''02'', ''03'', ''04'',
     ''05'', ''06'', ''07'', ''08'', ''09'',
     ''10'', ''11'', ''12'', ''13'', ''14'',
     ''15'', ''16'', ''17'', ''18'', ''19'',
     ''20'', ''21'', ''22'', ''23'', ''24'',
     ''25'', ''26'', ''27'', ''28'', ''29'',
     ''30'', ''31'', ''32'', ''33'', ''34'',
     ''35'', ''36'', ''37'', ''38'', ''39'',
     ''40'', ''41'', ''42'', ''43'', ''44'',
     ''45'', ''46'', ''47'', ''48'', ''49'',
     ''50'', ''51'', ''52'', ''53'', ''54'',
     ''55'', ''56'', ''57'', ''58'', ''59'',
     ''60'', ''61'', ''62'', ''63'', ''64'',
     ''65'', ''66'', ''67'', ''68'', ''69'',
     ''70'', ''71'', ''72'', ''73'', ''74'',
     ''75'', ''76'', ''77'', ''78'', ''79'',
     ''80'', ''81'', ''82'', ''83'', ''84'',
     ''85'', ''86'', ''87'', ''88'', ''89'',
     ''90'', ''91'', ''92'', ''93'', ''94'',
     ''95'', ''96'', ''97'', ''98'', ''99'']"

text \<open>
  \<open>FastUInt32ToBufferLeft(uint32 u, char* buffer)\<close> is straight-line code with
  \<open>goto\<close>s into a ladder of labels. Each label is a function of the current \<open>u\<close>
  (and, at a \<open>sub\<close> label, the \<open>digits\<close> just computed) and of the bytes written
  so far; the caller's \<open>buffer\<close> pointer is the end of these bytes. The result is the
  buffer contents including the terminating NUL, and the offset of the returned pointer
  from the start.

  \<open>u\<close> is a \<open>uint32\<close>, a \<open>32 word\<close>. \<open>digits\<close> is declared \<open>int\<close>: an
  assignment \<open>digits = u / k\<close> converts the unsigned quotient to \<open>int\<close>, and in
  \<open>u -= digits * k\<close> the product is a multiplication of two \<open>int\<close>s, whose
  overflow is undefined behaviour; only the product, once computed, is converted to
  \<open>uint32\<close> for the subtraction. An overflowing product ends the run with
  \<open>SignedOverflow\<close>.
\<close>

datatype undefined_behaviour = SignedOverflow

type_synonym out_buffer = "string"

type_synonym formatted = "undefined_behaviour + string \<times> nat"

definition int_times :: "int \<Rightarrow> int \<Rightarrow> undefined_behaviour + int" where
  "int_times a b =
     (if - 2147483648 \<le> a * b \<and> a * b \<le> 2147483647 then Inr (a * b)
      else Inl SignedOverflow)"

text \<open>\<open>u -= digits * k\<close>\<close>

definition subtract_product :: "32 word \<Rightarrow> int \<Rightarrow> int \<Rightarrow> undefined_behaviour + 32 word" where
  "subtract_product u digits k =
     (case int_times digits k of
        Inl ub \<Rightarrow> Inl ub
      | Inr product \<Rightarrow> Inr (u - word_of_int product))"

definition lbl_done :: "out_buffer \<Rightarrow> formatted" where
  "lbl_done buffer = Inr (buffer @ [CHR 0x00], length buffer)"

definition lbl_lt100 :: "32 word \<Rightarrow> out_buffer \<Rightarrow> formatted" where
  "lbl_lt100 u buffer =
     (let digits = sint u;
          ASCII_digits = two_ASCII_digits ! nat digits
      in lbl_done (buffer @ [ASCII_digits ! 0, ASCII_digits ! 1]))"

definition lbl_sublt100 :: "32 word \<Rightarrow> int \<Rightarrow> out_buffer \<Rightarrow> formatted" where
  "lbl_sublt100 u digits buffer =
     (case subtract_product u digits 100 of
        Inl ub \<Rightarrow> Inl ub
      | Inr u' \<Rightarrow> lbl_lt100 u' buffer)"

definition lbl_lt10_000 :: "32 word \<Rightarrow> out_buffer \<Rightarrow> formatted" where
  "lbl_lt10_000 u buffer =
     (let digits = sint (u div 100);
          ASCII_digits = two_ASCII_digits ! nat digits
      in lbl_sublt100 u digits (buffer @ [ASCII_digits ! 0, ASCII_digits ! 1]))"

definition lbl_sublt10_000 :: "32 word \<Rightarrow> int \<Rightarrow> out_buffer \<Rightarrow> formatted" where
  "lbl_sublt10_000 u digits buffer =
     (case subtract_product u digits 10000 of
        Inl ub \<Rightarrow> Inl ub
      | Inr u' \<Rightarrow> lbl_lt10_000 u' buffer)"

definition lbl_lt1_000_000 :: "32 word \<Rightarrow> out_buffer \<Rightarrow> formatted" where
  "lbl_lt1_000_000 u buffer =
     (let digits = sint (u div 10000);
          ASCII_digits = two_ASCII_digits ! nat digits
      in lbl_sublt10_000 u digits (buffer @ [ASCII_digits ! 0, ASCII_digits ! 1]))"

definition lbl_sublt1_000_000 :: "32 word \<Rightarrow> int \<Rightarrow> out_buffer \<Rightarrow> formatted" where
  "lbl_sublt1_000_000 u digits buffer =
     (case subtract_product u digits 1000000 of
        Inl ub \<Rightarrow> Inl ub
      | Inr u' \<Rightarrow> lbl_lt1_000_000 u' buffer)"

definition lbl_lt100_000_000 :: "32 word \<Rightarrow> out_buffer \<Rightarrow> formatted" where
  "lbl_lt100_000_000 u buffer =
     (let digits = sint (u div 1000000);
          ASCII_digits = two_ASCII_digits ! nat digits
      in lbl_sublt1_000_000 u digits (buffer @ [ASCII_digits ! 0, ASCII_digits ! 1]))"

definition lbl_sublt100_000_000 :: "32 word \<Rightarrow> int \<Rightarrow> out_buffer \<Rightarrow> formatted" where
  "lbl_sublt100_000_000 u digits buffer =
     (case subtract_product u digits 100000000 of
        Inl ub \<Rightarrow> Inl ub
      | Inr u' \<Rightarrow> lbl_lt100_000_000 u' buffer)"

text \<open>\<open>*buffer++ = '0' + digits\<close>: the sum is an \<open>int\<close>, stored as a \<open>char\<close>.\<close>

definition digit_char :: "int \<Rightarrow> char" where
  "digit_char digits = char_of (nat ((int (of_char CHR ''0'') + digits) mod 256))"

definition FastUInt32ToBufferLeft :: "32 word \<Rightarrow> formatted" where
  "FastUInt32ToBufferLeft u =
     (if u \<ge> 1000000000 then
        (let digits = sint (u div 100000000);
             ASCII_digits = two_ASCII_digits ! nat digits
         in lbl_sublt100_000_000 u digits [ASCII_digits ! 0, ASCII_digits ! 1])
      else if u < 100 then
        (let digits = sint u
         in if u \<ge> 10 then lbl_lt100 u [] else lbl_done [digit_char digits])
      else if u < 10000 then
        (if u \<ge> 1000 then lbl_lt10_000 u []
         else let digits = sint (u div 100) in lbl_sublt100 u digits [digit_char digits])
      else if u < 1000000 then
        (if u \<ge> 100000 then lbl_lt1_000_000 u []
         else let digits = sint (u div 10000) in lbl_sublt10_000 u digits [digit_char digits])
      else if u < 100000000 then
        (if u \<ge> 10000000 then lbl_lt100_000_000 u []
         else let digits = sint (u div 1000000) in lbl_sublt1_000_000 u digits [digit_char digits])
      else
        (let digits = sint (u div 100000000)
         in lbl_sublt100_000_000 u digits [digit_char digits]))"

text \<open>
  The reference formatter: the decimal digits of a natural number, most significant first,
  produced one digit at a time by division by ten.
\<close>

fun naive_decimal :: "nat \<Rightarrow> string" where
  "naive_decimal n =
     (if n < 10 then [char_of (48 + n)]
      else naive_decimal (n div 10) @ [char_of (48 + n mod 10)])"




text \<open>
  Two auxiliary notions for the proof: the two decimal digits of a number below a hundred,
  and \<open>k\<close> such groups for a number below \<open>100 ^ k\<close>.
\<close>

definition two :: "nat \<Rightarrow> string" where
  "two d = [char_of (48 + d div 10), char_of (48 + d mod 10)]"

fun groups :: "nat \<Rightarrow> nat \<Rightarrow> string" where
  "groups 0 r = []"
| "groups (Suc k) r = two (r div 100 ^ k) @ groups k (r mod 100 ^ k)"


section \<open>Comparison with numeric digit runs (strings/numbers.cc)\<close>

text \<open>
  \<open>isdigit\<close> in the C locale. The elements of the strings are plain \<open>char\<close>s, which the
  comparisons \<open>a[aindex] < b[bindex]\<close> promote to \<open>int\<close>; on the Linux x86-64 targets of
  the library \<open>char\<close> is signed, so a byte from 128 on compares as a negative number.
\<close>

definition isdigit :: "char \<Rightarrow> bool" where
  "isdigit c = (48 \<le> (of_char c :: nat) \<and> (of_char c :: nat) \<le> 57)"

definition char_value :: "char \<Rightarrow> int" where
  "char_value c = (let n = int (of_char c) in if n < 128 then n else n - 256)"

text \<open>
  The inner \<open>for\<close> loop over two digit runs of the same length: \<open>Some r\<close> when it
  returns \<open>r\<close> from the function, \<open>None\<close> when it runs to its end.
  \<^verbatim>\<open>
        for (int i = 0; i < aindex-astart; i++) {
          if (a[astart+i] < b[bstart+i]) {
            return -1;
          } else if (a[astart+i] > b[bstart+i]) {
            return 1;
          }
        }
  \<close>
\<close>

fun compare_runs :: "string \<Rightarrow> string \<Rightarrow> int option" where
  "compare_runs (x # xs) (y # ys) =
     (if char_value x < char_value y then Some (- 1)
      else if char_value x > char_value y then Some 1
      else compare_runs xs ys)"
| "compare_runs xs ys = None"

text \<open>
  \<open>AutoDigitStrCmp(a, alen, b, blen, strict)\<close>. The two arguments of the model are the
  parts of the strings still to be scanned, \<open>a[aindex .. alen)\<close> and
  \<open>b[bindex .. blen)\<close>; the function is called on the whole strings, and an iteration
  of the outer \<open>while\<close> loop is a recursive call on shorter parts. In the branch for two
  digits, \<open>a1\<close> is what remains after the leading zeroes, \<open>azeroes\<close> their number,
  \<open>arun\<close> the run of digits \<open>a[astart .. aindex)\<close> and \<open>a2\<close> what remains after it.
\<close>

function AutoDigitStrCmp :: "string \<Rightarrow> string \<Rightarrow> bool \<Rightarrow> int" where
  "AutoDigitStrCmp [] [] strict = 0"
| "AutoDigitStrCmp (x # xs) [] strict = 1"
| "AutoDigitStrCmp [] (y # ys) strict = - 1"
| "AutoDigitStrCmp (x # xs) (y # ys) strict =
     (if isdigit x \<and> isdigit y then
        (let a1 = dropWhile (\<lambda>c. c = CHR ''0'') (x # xs);
             b1 = dropWhile (\<lambda>c. c = CHR ''0'') (y # ys);
             azeroes = length (x # xs) - length a1;
             bzeroes = length (y # ys) - length b1;
             arun = takeWhile isdigit a1;
             brun = takeWhile isdigit b1;
             a2 = dropWhile isdigit a1;
             b2 = dropWhile isdigit b1
         in if length arun < length brun then - 1
            else if length arun > length brun then 1
            else
              (case compare_runs arun brun of
                 Some r \<Rightarrow> r
               | None \<Rightarrow>
                   if strict \<and> azeroes \<noteq> bzeroes then
                     (if azeroes > bzeroes then - 1 else 1)
                   else AutoDigitStrCmp a2 b2 strict))
      else if char_value x < char_value y then - 1
      else if char_value x > char_value y then 1
      else AutoDigitStrCmp xs ys strict)"
  by pat_completeness auto
termination
proof (relation "measure (\<lambda>(a, b, strict). length a)")
  show "wf (measure (\<lambda>(a, b, strict). length a))"
    by simp
next
  fix x :: char and xs y ys strict a1 b1 azeroes bzeroes arun brun a2 b2
  assume d: "isdigit x \<and> isdigit y"
    and a1: "a1 = dropWhile (\<lambda>c. c = CHR ''0'') (x # xs)"
    and a2: "a2 = dropWhile isdigit a1"
  have "length a2 \<le> length xs"
  proof (cases "x = CHR ''0''")
    case True
    then have "length a1 \<le> length xs"
      using a1 by (simp add: length_dropWhile_le)
    moreover have "length a2 \<le> length a1"
      using a2 by (simp add: length_dropWhile_le)
    ultimately show ?thesis by simp
  next
    case False
    then have "a2 = dropWhile isdigit xs"
      using a1 a2 d by simp
    then show ?thesis by (simp add: length_dropWhile_le)
  qed
  then show "((a2, b2, strict), (x # xs, y # ys, strict)) \<in> measure (\<lambda>(a, b, strict). length a)"
    by simp
next
  fix x :: char and xs :: string and y :: char and ys :: string and strict :: bool
  show "((xs, ys, strict), (x # xs, y # ys, strict)) \<in> measure (\<lambda>(a, b, strict). length a)"
    by simp
qed

text \<open>
  The numeric reading of a string: every maximal run of digits counts without its leading
  zeroes (two runs of digits denote the same number exactly when they agree after their
  leading zeroes), every other character counts as itself.
\<close>

datatype token = Other char | Digits string

function tokens :: "string \<Rightarrow> token list" where
  "tokens [] = []"
| "tokens (x # xs) =
     (if isdigit x then
        Digits (dropWhile (\<lambda>c. c = CHR ''0'') (takeWhile isdigit (x # xs)))
          # tokens (dropWhile isdigit (x # xs))
      else Other x # tokens xs)"
  by pat_completeness auto
termination
  by (relation "measure length") (auto simp: length_dropWhile_le less_Suc_eq_le)


section \<open>Properties of the connection handler\<close>

lemma ec_success_not_closed [simp]: "\<not> is_conn_closed ec_success"
  by (simp add: is_conn_closed_def)
lemma ops_issue [simp]: "ops (issue op r) = op # ops r"
  by (simp add: issue_def)

lemma outcome_issue [simp]: "outcome (issue op r) = outcome r"
  by (simp add: issue_def)

lemma qps_issue [simp]: "qps (issue op r) = qps r"
  by (simp add: issue_def)

lemma ops_ping_qps_Inc [simp]: "ops (ping_qps_Inc r) = ops r"
  by (simp add: ping_qps_Inc_def)

lemma outcome_ping_qps_Inc [simp]: "outcome (ping_qps_Inc r) = outcome r"
  by (simp add: ping_qps_Inc_def)

lemma qps_ping_qps_Inc [simp]: "qps (ping_qps_Inc r) = Suc (qps r)"
  by (simp add: ping_qps_Inc_def)

lemma finish_simps [simp]:
  "outcome (finish out) = out" "ops (finish out) = []" "qps (finish out) = 0"
  by (simp_all add: finish_def)

lemma HandleRequests_starts_reading:
  "\<exists>t. ops (HandleRequests pc cmd rs ws) = ReadSome # t"
  by (cases rs) auto

lemma chunkwise_ReadSome_run:
  "chunkwise (ReadSome # ops (HandleRequests pc cmd rs ws)) =
   chunkwise (ops (HandleRequests pc cmd rs ws))"
proof -
  obtain t where "ops (HandleRequests pc cmd rs ws) = ReadSome # t"
    using HandleRequests_starts_reading [of pc cmd rs ws] by blast
  then show ?thesis by simp
qed

lemma chunkwise_HandleRequests: "chunkwise (ops (HandleRequests pc cmd rs ws))"
  by (induction rs arbitrary: cmd ws)
     (auto split: prod.splits list.splits simp: chunkwise_ReadSome_run)

lemma writes_le_reads_HandleRequests:
  "length (filter is_write (ops (HandleRequests pc cmd rs ws)))
   \<le> length (filter is_read (ops (HandleRequests pc cmd rs ws)))"
  by (induction rs arbitrary: cmd ws)
     (auto split: prod.splits list.splits intro!: le_SucI)

lemma reads_HandleRequests:
  "length (filter is_read (ops (HandleRequests pc cmd rs ws))) \<le> Suc (length rs)"
  by (induction rs arbitrary: cmd ws)
     (auto split: prod.splits list.splits)

lemma byte_counts_ignored:
  "map snd ws = map snd ws' \<Longrightarrow> HandleRequests pc cmd rs ws = HandleRequests pc cmd rs ws'"
proof (induction rs arbitrary: cmd ws ws')
  case Nil
  show ?case by simp
next
  case (Cons r rs)
  obtain data ec where r: "r = (data, ec)" by (cases r)
  obtain decoded cmd' where d: "Decode pc cmd data = (decoded, cmd')"
    by (cases "Decode pc cmd data")
  show ?case
  proof (cases ws)
    case Nil
    with Cons.prems have "ws' = []" by simp
    with Nil r d Cons.IH [of "[]" "[]"] show ?thesis by simp
  next
    case ws: (Cons w ws1)
    with Cons.prems obtain w' ws1' where ws': "ws' = w' # ws1'" "snd w = snd w'"
      "map snd ws1 = map snd ws1'"
      by (cases ws') auto
    have tl: "HandleRequests pc cmd' rs ws1 = HandleRequests pc cmd' rs ws1'"
      using ws'(3) by (rule Cons.IH)
    have all: "HandleRequests pc cmd' rs ws = HandleRequests pc cmd' rs ws'"
      using Cons.prems by (rule Cons.IH)
    show ?thesis
      using r d ws ws' tl all by (cases w; cases w') simp
  qed
qed

lemma writes_eq_qps:
  "length (filter is_write (ops (HandleRequests pc cmd rs ws))) = qps (HandleRequests pc cmd rs ws)"
  by (induction rs arbitrary: cmd ws) (auto split: prod.splits list.splits)

lemma read_ok_simp [simp]: "read_ok (data, ec) = (ec = ec_success)"
  by (simp add: read_ok_def)

lemma write_ok_simp [simp]: "write_ok (n, ec) = (ec = ec_success)"
  by (simp add: write_ok_def)

lemma ops_of_iteration:
  "ops (HandleRequests pc cmd ((data, ec) # rs) ws) =
     ReadSome #
       (if is_conn_closed ec then [Shutdown_RDWR]
        else if ec \<noteq> ec_success then []
        else if fst (Decode pc cmd data) then
          WriteSome (reply pc (snd (Decode pc cmd data))) #
            (case ws of
               [] \<Rightarrow> []
             | (n, wec) # ws' \<Rightarrow>
                 if wec \<noteq> ec_success then []
                 else ops (HandleRequests pc (snd (Decode pc cmd data)) rs ws'))
        else ops (HandleRequests pc (snd (Decode pc cmd data)) rs ws))"
  by (cases "Decode pc cmd data") (auto split: list.splits)

lemma outcome_of_iteration:
  "outcome (HandleRequests pc cmd ((data, ec) # rs) ws) =
     (if is_conn_closed ec then Returned
      else if ec \<noteq> ec_success then CheckFailed ec
      else if fst (Decode pc cmd data) then
        (case ws of
           [] \<Rightarrow> Suspended
         | (n, wec) # ws' \<Rightarrow>
             if wec \<noteq> ec_success then CheckFailed wec
             else outcome (HandleRequests pc (snd (Decode pc cmd data)) rs ws'))
      else outcome (HandleRequests pc (snd (Decode pc cmd data)) rs ws))"
  by (cases "Decode pc cmd data") (auto split: list.splits)

lemma is_conn_closed_not_success: "is_conn_closed ec \<Longrightarrow> ec \<noteq> ec_success"
  by (auto simp: is_conn_closed_def)

lemma returned_only_on_close:
  "outcome (HandleRequests pc cmd rs ws) = Returned \<Longrightarrow>
   \<exists>ec. first_read_error rs = Some ec \<and> is_conn_closed ec"
proof (induction rs arbitrary: cmd ws)
  case Nil
  then show ?case by simp
next
  case (Cons r rs)
  obtain data ec where r: "r = (data, ec)" by (cases r)
  show ?case
  proof (cases "is_conn_closed ec")
    case True
    then show ?thesis
      using r is_conn_closed_not_success [OF True] by simp
  next
    case nc: False
    show ?thesis
    proof (cases "ec = ec_success")
      case False
      with nc r Cons.prems show ?thesis by simp
    next
      case True
      obtain decoded cmd' where d: "Decode pc cmd data = (decoded, cmd')"
        by (cases "Decode pc cmd data")
      have "\<exists>ws'. outcome (HandleRequests pc cmd' rs ws') = Returned"
        using Cons.prems r True d
        by (cases decoded; cases ws) (auto split: if_splits)
      then obtain ws' where "outcome (HandleRequests pc cmd' rs ws') = Returned" ..
      then have "\<exists>ec. first_read_error rs = Some ec \<and> is_conn_closed ec"
        by (rule Cons.IH)
      then show ?thesis
        using r True by simp
    qed
  qed
qed

lemma shutdown_iff_returned:
  "(Shutdown_RDWR \<in> set (ops (HandleRequests pc cmd rs ws))) =
   (outcome (HandleRequests pc cmd rs ws) = Returned)"
proof (induction rs arbitrary: cmd ws)
  case Nil
  show ?case by simp
next
  case (Cons r rs)
  obtain data ec where r: "r = (data, ec)" by (cases r)
  show ?case
    unfolding r ops_of_iteration outcome_of_iteration
    by (simp add: Cons.IH split: list.splits)
qed

lemma reads_when_returned:
  "outcome (HandleRequests pc cmd rs ws) = Returned \<Longrightarrow>
   length (filter is_read (ops (HandleRequests pc cmd rs ws))) = Suc (length (takeWhile read_ok rs))"
proof (induction rs arbitrary: cmd ws)
  case Nil
  then show ?case by simp
next
  case (Cons r rs)
  obtain data ec where r: "r = (data, ec)" by (cases r)
  show ?case
  proof (cases "is_conn_closed ec")
    case True
    then show ?thesis
      using r is_conn_closed_not_success [OF True] by simp
  next
    case nc: False
    show ?thesis
    proof (cases "ec = ec_success")
      case False
      with nc r Cons.prems show ?thesis by simp
    next
      case True
      obtain decoded cmd' where d: "Decode pc cmd data = (decoded, cmd')"
        by (cases "Decode pc cmd data")
      show ?thesis
      proof (cases decoded)
        case False
        then have "outcome (HandleRequests pc cmd' rs ws) = Returned"
          using Cons.prems r True d by simp
        then have "length (filter is_read (ops (HandleRequests pc cmd' rs ws))) =
            Suc (length (takeWhile read_ok rs))"
          by (rule Cons.IH)
        then show ?thesis
          using r True d False by simp
      next
        case dec: True
        then obtain n ws' where ws: "ws = (n, ec_success) # ws'"
          using Cons.prems r True d
          by (cases ws) (auto split: if_splits)
        then have "outcome (HandleRequests pc cmd' rs ws') = Returned"
          using Cons.prems r True d dec by simp
        then have "length (filter is_read (ops (HandleRequests pc cmd' rs ws'))) =
            Suc (length (takeWhile read_ok rs))"
          by (rule Cons.IH)
        then show ?thesis
          using r True d dec ws by simp
      qed
    qed
  qed
qed

lemma writes_are_accepted_replies:
  "filter is_write (ops (HandleRequests pc cmd rs ws)) =
   map WriteSome (take (Suc (length (takeWhile write_ok ws))) (accepted_replies pc cmd rs))"
proof (induction rs arbitrary: cmd ws)
  case Nil
  show ?case by simp
next
  case (Cons r rs)
  obtain data ec where r: "r = (data, ec)" by (cases r)
  show ?case
  proof (cases "is_conn_closed ec")
    case True
    then show ?thesis
      using r is_conn_closed_not_success [OF True] by simp
  next
    case nc: False
    show ?thesis
    proof (cases "ec = ec_success")
      case False
      with nc r show ?thesis by simp
    next
      case True
      obtain decoded cmd' where d: "Decode pc cmd data = (decoded, cmd')"
        by (cases "Decode pc cmd data")
      show ?thesis
      proof (cases decoded)
        case False
        then show ?thesis
          using r True d Cons.IH [of cmd' ws] by simp
      next
        case dec: True
        show ?thesis
        proof (cases ws)
          case Nil
          then show ?thesis
            using r True d dec by simp
        next
          case (Cons w ws')
          obtain n wec where w: "w = (n, wec)" by (cases w)
          show ?thesis
          proof (cases "wec = ec_success")
            case False
            then show ?thesis
              using r True d dec Cons w by simp
          next
            case wok: True
            then show ?thesis
              using r True d dec Cons w Cons.IH [of cmd' ws'] by simp
          qed
        qed
      qed
    qed
  qed
qed

subsection \<open>Classification of socket errors\<close>

text \<open>
  Claim C1, as stated: \<open>is_conn_closed\<close> holds exactly of \<open>connection_aborted\<close> and
  \<open>connection_reset\<close>, and exactly these errors are treated as a benign close, every
  other nonzero error as a fault. The classification is applied to the error of
  \<open>read_some\<close> only. Here \<open>write_some\<close> reports \<open>connection_reset\<close>, of which
  \<open>is_conn_closed\<close> holds, and the handler's \<open>CHECK\<close> fails instead of the loop
  ending in a benign close.
\<close>

theorem write_closed_counterexample:
  "is_conn_closed (ec_error connection_reset)
   \<and> HandleRequests pong_command () [(''PING'', ec_success)] [(7, ec_error connection_reset)] =
        \<lparr>outcome = CheckFailed (ec_error connection_reset),
         ops = [ReadSome, WriteSome (reply pong_command ())],
         qps = 1\<rparr>"
  by (simp add: pong_command_def is_conn_closed_def issue_def finish_def ping_qps_Inc_def)

text \<open>
  Claim C1, amended. For every socket error code \<open>ec\<close>, \<open>is_conn_closed ec\<close> holds if
  and only if \<open>ec\<close> is \<open>connection_aborted\<close> or \<open>connection_reset\<close>. An error
  reported by \<open>read_some\<close> is treated as a benign close exactly when it is one of these
  two: then the loop exits and the handler returns after the shutdown, with no fault, and
  a read after which the handler stops in this way has reported one of them; every other
  nonzero error of \<open>read_some\<close> fails the \<open>CHECK\<close>. Every nonzero error reported by
  the \<open>write_some\<close> of a reply, these two included, fails the \<open>CHECK\<close>.
\<close>

theorem socket_error_classification:
  "(is_conn_closed ec \<longleftrightarrow> ec = ec_error connection_aborted \<or> ec = ec_error connection_reset)
   \<and> (is_conn_closed ec \<longrightarrow>
        HandleRequests pc cmd ((data, ec) # rs) ws =
          \<lparr>outcome = Returned, ops = [ReadSome, Shutdown_RDWR], qps = 0\<rparr>)
   \<and> (ops (HandleRequests pc cmd ((data, ec) # rs) ws) = [ReadSome, Shutdown_RDWR] \<longrightarrow>
        is_conn_closed ec)
   \<and> (ec \<noteq> ec_success \<and> \<not> is_conn_closed ec \<longrightarrow>
        HandleRequests pc cmd ((data, ec) # rs) ws =
          \<lparr>outcome = CheckFailed ec, ops = [ReadSome], qps = 0\<rparr>)
   \<and> (ec \<noteq> ec_success \<and> fst (Decode pc cmd data) \<longrightarrow>
        HandleRequests pc cmd ((data, ec_success) # rs) ((n, ec) # ws) =
          \<lparr>outcome = CheckFailed ec,
           ops = [ReadSome, WriteSome (reply pc (snd (Decode pc cmd data)))],
           qps = 1\<rparr>)"
proof (intro conjI impI)
  show "is_conn_closed ec \<longleftrightarrow> ec = ec_error connection_aborted \<or> ec = ec_error connection_reset"
    by (simp add: is_conn_closed_def)
next
  assume "is_conn_closed ec"
  then show "HandleRequests pc cmd ((data, ec) # rs) ws =
      \<lparr>outcome = Returned, ops = [ReadSome, Shutdown_RDWR], qps = 0\<rparr>"
    by (simp add: issue_def finish_def)
next
  assume exit: "ops (HandleRequests pc cmd ((data, ec) # rs) ws) = [ReadSome, Shutdown_RDWR]"
  show "is_conn_closed ec"
  proof (rule ccontr)
    assume nc: "\<not> is_conn_closed ec"
    show False
    proof (cases "ec = ec_success")
      case False
      with nc exit show False by simp
    next
      case True
      obtain decoded cmd' where d: "Decode pc cmd data = (decoded, cmd')"
        by (cases "Decode pc cmd data")
      obtain t where t: "ops (HandleRequests pc cmd' rs ws) = ReadSome # t"
        using HandleRequests_starts_reading [of pc cmd' rs ws] by blast
      from exit True d t show False
        by (cases decoded) simp_all
    qed
  qed
next
  assume "ec \<noteq> ec_success \<and> \<not> is_conn_closed ec"
  then show "HandleRequests pc cmd ((data, ec) # rs) ws =
      \<lparr>outcome = CheckFailed ec, ops = [ReadSome], qps = 0\<rparr>"
    by (simp add: issue_def finish_def)
next
  assume "ec \<noteq> ec_success \<and> fst (Decode pc cmd data)"
  then show "HandleRequests pc cmd ((data, ec_success) # rs) ((n, ec) # ws) =
      \<lparr>outcome = CheckFailed ec,
       ops = [ReadSome, WriteSome (reply pc (snd (Decode pc cmd data)))],
       qps = 1\<rparr>"
    by (cases "Decode pc cmd data") (simp add: issue_def finish_def ping_qps_Inc_def)
qed

theorem socket_error_classification_witness:
  "is_conn_closed (ec_error connection_reset)
   \<and> HandleRequests pong_command () [([], ec_error connection_reset)] [] =
        \<lparr>outcome = Returned, ops = [ReadSome, Shutdown_RDWR], qps = 0\<rparr>
   \<and> ec_error (other_errc 5) \<noteq> ec_success \<and> \<not> is_conn_closed (ec_error (other_errc 5))
   \<and> HandleRequests pong_command () [([], ec_error (other_errc 5))] [] =
        \<lparr>outcome = CheckFailed (ec_error (other_errc 5)), ops = [ReadSome], qps = 0\<rparr>
   \<and> ec_error connection_aborted \<noteq> ec_success \<and> fst (Decode pong_command () ''PING'')
   \<and> HandleRequests pong_command () [(''PING'', ec_success)] [(0, ec_error connection_aborted)] =
        \<lparr>outcome = CheckFailed (ec_error connection_aborted),
         ops = [ReadSome, WriteSome (reply pong_command (snd (Decode pong_command () ''PING'')))],
         qps = 1\<rparr>"
proof -
  have h: "fst (Decode pong_command () ''PING'')"
    by (simp add: pong_command_def)
  show ?thesis
    using h
      socket_error_classification [where ec = "ec_error connection_reset" and pc = pong_command
        and cmd = "()" and data = "[]" and rs = "[]" and ws = "[]"]
      socket_error_classification [where ec = "ec_error (other_errc 5)" and pc = pong_command
        and cmd = "()" and data = "[]" and rs = "[]" and ws = "[]"]
      socket_error_classification [where ec = "ec_error connection_aborted" and pc = pong_command
        and cmd = "()" and data = "''PING''" and rs = "[]" and ws = "[]" and n = 0]
    by (simp add: is_conn_closed_def)
qed

subsection \<open>A zero-byte read without error\<close>

text \<open>
  Claim C2, as stated: whenever \<open>read_some\<close> returns 0 bytes with no error, the handler
  returns cleanly and issues no further socket operation but the shutdown. The handler
  never looks at the byte count: on 0 bytes and no error it decodes and reads again.
  Here the next read never completes and the handler does not return; and when the next
  read reports an abort, the handler has issued that second read before shutting down.
\<close>

theorem zero_byte_read_counterexample:
  "outcome (HandleRequests pong_command () [([], ec_success)] []) = Suspended
   \<and> ops (HandleRequests pong_command () [([], ec_success)] []) = [ReadSome, ReadSome]
   \<and> ops (HandleRequests pong_command () [([], ec_success), ([], ec_error connection_aborted)] [])
       = [ReadSome, ReadSome, Shutdown_RDWR]"
  by (simp add: pong_command_def is_conn_closed_def)

text \<open>
  Claim C2, amended. When \<open>read_some\<close> returns 0 bytes with no error, the handler does
  not leave its loop: \<open>is_conn_closed\<close> is false and the \<open>CHECK\<close> passes, so it calls
  \<open>Decode(0)\<close>; if that succeeds the next operation is the \<open>write_some\<close> of the
  reply, and if not it is the \<open>read_some\<close> of the next iteration; it is never the
  shutdown. The handler returns cleanly, and shuts the socket down, only when a
  \<open>read_some\<close> reports \<open>connection_aborted\<close> or \<open>connection_reset\<close>, all reads
  before it having completed without error.
\<close>

theorem zero_byte_read_continues:
  "ops (HandleRequests pc cmd (([], ec_success) # rs) ws) =
     ReadSome #
       (if fst (Decode pc cmd []) then
          WriteSome (reply pc (snd (Decode pc cmd []))) #
            (case ws of
               [] \<Rightarrow> []
             | (n, wec) # ws' \<Rightarrow>
                 if wec \<noteq> ec_success then []
                 else ops (HandleRequests pc (snd (Decode pc cmd [])) rs ws'))
        else ops (HandleRequests pc (snd (Decode pc cmd [])) rs ws))
   \<and> (\<exists>t. ops (HandleRequests pc cmd (([], ec_success) # rs) ws) =
          ReadSome #
            (if fst (Decode pc cmd []) then WriteSome (reply pc (snd (Decode pc cmd [])))
             else ReadSome) # t)
   \<and> (outcome (HandleRequests pc cmd rs' ws') = Returned \<longrightarrow>
        (\<exists>ec. first_read_error rs' = Some ec \<and> is_conn_closed ec))
   \<and> (Shutdown_RDWR \<in> set (ops (HandleRequests pc cmd rs' ws')) \<longleftrightarrow>
        outcome (HandleRequests pc cmd rs' ws') = Returned)"
proof (intro conjI impI)
  show "ops (HandleRequests pc cmd (([], ec_success) # rs) ws) =
     ReadSome #
       (if fst (Decode pc cmd []) then
          WriteSome (reply pc (snd (Decode pc cmd []))) #
            (case ws of
               [] \<Rightarrow> []
             | (n, wec) # ws' \<Rightarrow>
                 if wec \<noteq> ec_success then []
                 else ops (HandleRequests pc (snd (Decode pc cmd [])) rs ws'))
        else ops (HandleRequests pc (snd (Decode pc cmd [])) rs ws))"
    using ops_of_iteration [of pc cmd "[]" ec_success rs ws] by simp
next
  obtain t where t: "ops (HandleRequests pc (snd (Decode pc cmd [])) rs ws) = ReadSome # t"
    using HandleRequests_starts_reading [of pc "snd (Decode pc cmd [])" rs ws] by blast
  show "\<exists>t. ops (HandleRequests pc cmd (([], ec_success) # rs) ws) =
          ReadSome #
            (if fst (Decode pc cmd []) then WriteSome (reply pc (snd (Decode pc cmd [])))
             else ReadSome) # t"
    using ops_of_iteration [of pc cmd "[]" ec_success rs ws] t by simp
next
  assume "outcome (HandleRequests pc cmd rs' ws') = Returned"
  then show "\<exists>ec. first_read_error rs' = Some ec \<and> is_conn_closed ec"
    by (rule returned_only_on_close)
next
  show "Shutdown_RDWR \<in> set (ops (HandleRequests pc cmd rs' ws')) \<longleftrightarrow>
        outcome (HandleRequests pc cmd rs' ws') = Returned"
    by (rule shutdown_iff_returned)
qed

theorem zero_byte_read_continues_witness:
  "outcome (HandleRequests pong_command ()
      [([], ec_success), (''PING'', ec_success), ([], ec_error connection_aborted)]
      [(7, ec_success)]) = Returned
   \<and> first_read_error
        [([], ec_success), (''PING'', ec_success), ([], ec_error connection_aborted)] =
        Some (ec_error connection_aborted)
   \<and> is_conn_closed (ec_error connection_aborted)
   \<and> ops (HandleRequests pong_command ()
        [([], ec_success), (''PING'', ec_success), ([], ec_error connection_aborted)]
        [(7, ec_success)]) =
       [ReadSome, ReadSome, WriteSome (reply pong_command ()), ReadSome, Shutdown_RDWR]"
proof -
  have r: "outcome (HandleRequests pong_command ()
      [([], ec_success), (''PING'', ec_success), ([], ec_error connection_aborted)]
      [(7, ec_success)]) = Returned"
    by (simp add: pong_command_def is_conn_closed_def)
  show ?thesis
    using r zero_byte_read_continues [where pc = pong_command and cmd = "()"
        and rs = "[(''PING'', ec_success), ([], ec_error connection_aborted)]"
        and ws = "[(7, ec_success)]"
        and rs' = "[([], ec_success), (''PING'', ec_success), ([], ec_error connection_aborted)]"
        and ws' = "[(7, ec_success)]"]
    by (simp add: pong_command_def is_conn_closed_def)
qed

subsection \<open>Fatal errors\<close>

text \<open>
  Claim C3, as stated: a fatal socket error (nonzero, neither \<open>connection_aborted\<close> nor
  \<open>connection_reset\<close>) is handled locally by the connection task and never aborts the
  Proactor or other connections. Here the second read fails with errno 5 and the
  handler's \<open>CHECK\<close> aborts the process.
\<close>

theorem fatal_error_counterexample:
  "aborts_process (outcome (HandleRequests pong_command ()
      [(''PING'', ec_success), ([], ec_error (other_errc 5))] [(7, ec_success)]))"
  by (simp add: pong_command_def is_conn_closed_def)

text \<open>
  Claim C3, amended. A fatal socket error surfaced to the connection task is not handled
  locally: whether it comes from \<open>read_some\<close> or from the \<open>write_some\<close> of a reply,
  the handler's \<open>CHECK\<close> fails, which aborts the process, and the handler neither
  returns nor shuts the socket down.
\<close>

theorem fatal_error_aborts_process:
  assumes "ec \<noteq> ec_success" and "\<not> is_conn_closed ec"
  shows "outcome (HandleRequests pc cmd ((data, ec) # rs) ws) = CheckFailed ec
       \<and> aborts_process (outcome (HandleRequests pc cmd ((data, ec) # rs) ws))
       \<and> Shutdown_RDWR \<notin> set (ops (HandleRequests pc cmd ((data, ec) # rs) ws))
       \<and> (fst (Decode pc cmd data) \<longrightarrow>
            outcome (HandleRequests pc cmd ((data, ec_success) # rs) ((n, ec) # ws)) = CheckFailed ec
          \<and> Shutdown_RDWR \<notin> set (ops (HandleRequests pc cmd ((data, ec_success) # rs) ((n, ec) # ws))))"
  using assms by (auto split: prod.splits)

theorem fatal_error_aborts_process_witness:
  "ec_error (other_errc 5) \<noteq> ec_success \<and> \<not> is_conn_closed (ec_error (other_errc 5))
   \<and> fst (Decode pong_command () ''PING'')
   \<and> outcome (HandleRequests pong_command () [(''PING'', ec_error (other_errc 5))] []) =
        CheckFailed (ec_error (other_errc 5))
   \<and> outcome (HandleRequests pong_command () [(''PING'', ec_success)] [(0, ec_error (other_errc 5))]) =
        CheckFailed (ec_error (other_errc 5))"
proof -
  have h1: "ec_error (other_errc 5) \<noteq> ec_success" by simp
  have h2: "\<not> is_conn_closed (ec_error (other_errc 5))" by (simp add: is_conn_closed_def)
  have h3: "fst (Decode pong_command () ''PING'')" by (simp add: pong_command_def)
  show ?thesis
    using h1 h2 h3
      fatal_error_aborts_process [OF h1 h2, where pc = pong_command and cmd = "()"
        and data = "''PING''" and rs = "[]" and ws = "[]" and n = 0]
    by simp
qed

subsection \<open>Short writes\<close>

text \<open>
  Claim C4, as stated: whenever \<open>write_some\<close> returns fewer bytes than the reply holds,
  the handler issues further \<open>write_some\<close> calls until the whole reply is written. Here
  the socket accepts 3 of the 7 bytes of the reply; the handler issues no second write,
  reads the next chunk and returns.
\<close>

theorem short_write_counterexample:
  "(3::nat) < length (reply pong_command ())
   \<and> HandleRequests pong_command ()
        [(''PING'', ec_success), ([], ec_error connection_aborted)] [(3, ec_success)] =
        \<lparr>outcome = Returned,
         ops = [ReadSome, WriteSome (reply pong_command ()), ReadSome, Shutdown_RDWR],
         qps = 1\<rparr>"
  by (simp add: pong_command_def is_conn_closed_def issue_def finish_def ping_qps_Inc_def)

text \<open>
  Claim C4, amended. The handler issues exactly one \<open>write_some\<close> for each chunk that
  \<open>Decode\<close> accepts, carrying the reply for that chunk, up to and including the first
  write that fails or does not complete, and discards the byte count \<open>write_some\<close>
  returns: the whole run is the same whatever counts the writes return, and no further
  \<open>write_some\<close> is issued for the bytes a short write left over.
\<close>

theorem short_write_not_retried:
  assumes "map snd ws = map snd ws'"
  shows "HandleRequests pc cmd rs ws = HandleRequests pc cmd rs ws'
       \<and> filter is_write (ops (HandleRequests pc cmd rs ws)) =
           map WriteSome
             (take (Suc (length (takeWhile write_ok ws))) (accepted_replies pc cmd rs))
       \<and> qps (HandleRequests pc cmd rs ws) =
           length (take (Suc (length (takeWhile write_ok ws))) (accepted_replies pc cmd rs))"
proof (intro conjI)
  show "HandleRequests pc cmd rs ws = HandleRequests pc cmd rs ws'"
    using assms by (rule byte_counts_ignored)
  show w: "filter is_write (ops (HandleRequests pc cmd rs ws)) =
      map WriteSome (take (Suc (length (takeWhile write_ok ws))) (accepted_replies pc cmd rs))"
    by (rule writes_are_accepted_replies)
  have "qps (HandleRequests pc cmd rs ws) =
      length (filter is_write (ops (HandleRequests pc cmd rs ws)))"
    by (rule writes_eq_qps [symmetric])
  then show "qps (HandleRequests pc cmd rs ws) =
      length (take (Suc (length (takeWhile write_ok ws))) (accepted_replies pc cmd rs))"
    unfolding w by (simp only: length_map)
qed

theorem short_write_not_retried_witness:
  "map snd [(3::nat, ec_success), (0, ec_success)] = map snd [(7::nat, ec_success), (7, ec_success)]
   \<and> HandleRequests pong_command ()
        [(''PING'', ec_success), ([], ec_success), (''PING'', ec_success),
         ([], ec_error connection_aborted)]
        [(3, ec_success), (0, ec_success)] =
       HandleRequests pong_command ()
        [(''PING'', ec_success), ([], ec_success), (''PING'', ec_success),
         ([], ec_error connection_aborted)]
        [(7, ec_success), (7, ec_success)]
   \<and> filter is_write (ops (HandleRequests pong_command ()
        [(''PING'', ec_success), ([], ec_success), (''PING'', ec_success),
         ([], ec_error connection_aborted)]
        [(3, ec_success), (0, ec_success)])) =
       [WriteSome (reply pong_command ()), WriteSome (reply pong_command ())]"
proof -
  have h: "map snd [(3::nat, ec_success), (0, ec_success)] =
      map snd [(7::nat, ec_success), (7, ec_success)]"
    by simp
  have a: "accepted_replies pong_command ()
      [(''PING'', ec_success), ([], ec_success), (''PING'', ec_success),
       ([], ec_error connection_aborted)] =
      [reply pong_command (), reply pong_command ()]"
    by (simp add: pong_command_def)
  show ?thesis
    using h a short_write_not_retried [OF h, where pc = pong_command and cmd = "()"
        and rs = "[(''PING'', ec_success), ([], ec_success), (''PING'', ec_success),
                   ([], ec_error connection_aborted)]"]
    by (simp add: pong_command_def)
qed

subsection \<open>One reply per chunk\<close>

text \<open>
  Claim C7. In every iteration of the handler's loop exactly one \<open>read_some\<close> is issued
  and at most one reply is written for the chunk that read returned, whatever the chunk
  holds (so also when it holds several complete requests). An iteration issues its
  \<open>read_some\<close> first; what follows is the shutdown, or nothing when a \<open>CHECK\<close>
  fails, or the one \<open>write_some\<close> of the reply and then, unless that write fails or
  stays pending, the next iteration, or the next iteration at once. So the operations of
  a run are reads, each followed by at most one write, with at most the final shutdown
  after them; there are no more writes than reads and no more reads than completed reads
  plus the one that may be pending; and a run that returns has issued exactly one read for
  every chunk received and one for the read that reported the close.
\<close>

theorem one_reply_per_chunk:
  "ops (HandleRequests pc cmd [] ws) = [ReadSome]
   \<and> ops (HandleRequests pc cmd ((data, ec) # rs) ws) =
       ReadSome #
         (if is_conn_closed ec then [Shutdown_RDWR]
          else if ec \<noteq> ec_success then []
          else if fst (Decode pc cmd data) then
            WriteSome (reply pc (snd (Decode pc cmd data))) #
              (case ws of
                 [] \<Rightarrow> []
               | (n, wec) # ws' \<Rightarrow>
                   if wec \<noteq> ec_success then []
                   else ops (HandleRequests pc (snd (Decode pc cmd data)) rs ws'))
          else ops (HandleRequests pc (snd (Decode pc cmd data)) rs ws))
   \<and> (\<exists>t. ops (HandleRequests pc cmd rs ws) = ReadSome # t)
   \<and> chunkwise (ops (HandleRequests pc cmd rs ws))
   \<and> length (filter is_write (ops (HandleRequests pc cmd rs ws)))
       \<le> length (filter is_read (ops (HandleRequests pc cmd rs ws)))
   \<and> 1 \<le> length (filter is_read (ops (HandleRequests pc cmd rs ws)))
   \<and> length (filter is_read (ops (HandleRequests pc cmd rs ws))) \<le> Suc (length rs)
   \<and> (outcome (HandleRequests pc cmd rs ws) = Returned \<longrightarrow>
        length (filter is_read (ops (HandleRequests pc cmd rs ws))) =
          Suc (length (takeWhile read_ok rs)))"
proof (intro conjI impI)
  show "ops (HandleRequests pc cmd [] ws) = [ReadSome]"
    by simp
  show "ops (HandleRequests pc cmd ((data, ec) # rs) ws) =
       ReadSome #
         (if is_conn_closed ec then [Shutdown_RDWR]
          else if ec \<noteq> ec_success then []
          else if fst (Decode pc cmd data) then
            WriteSome (reply pc (snd (Decode pc cmd data))) #
              (case ws of
                 [] \<Rightarrow> []
               | (n, wec) # ws' \<Rightarrow>
                   if wec \<noteq> ec_success then []
                   else ops (HandleRequests pc (snd (Decode pc cmd data)) rs ws'))
          else ops (HandleRequests pc (snd (Decode pc cmd data)) rs ws))"
    by (rule ops_of_iteration)
  show s: "\<exists>t. ops (HandleRequests pc cmd rs ws) = ReadSome # t"
    by (rule HandleRequests_starts_reading)
  show "chunkwise (ops (HandleRequests pc cmd rs ws))"
    by (rule chunkwise_HandleRequests)
  show "length (filter is_write (ops (HandleRequests pc cmd rs ws)))
       \<le> length (filter is_read (ops (HandleRequests pc cmd rs ws)))"
    by (rule writes_le_reads_HandleRequests)
  from s show "1 \<le> length (filter is_read (ops (HandleRequests pc cmd rs ws)))"
    by auto
  show "length (filter is_read (ops (HandleRequests pc cmd rs ws))) \<le> Suc (length rs)"
    by (rule reads_HandleRequests)
next
  assume "outcome (HandleRequests pc cmd rs ws) = Returned"
  then show "length (filter is_read (ops (HandleRequests pc cmd rs ws))) =
      Suc (length (takeWhile read_ok rs))"
    by (rule reads_when_returned)
qed

theorem one_reply_per_chunk_witness:
  "outcome (HandleRequests pong_command ()
      [(''PINGPING'', ec_success), ([], ec_success), ([], ec_error connection_reset)]
      [(7, ec_success)]) = Returned
   \<and> ops (HandleRequests pong_command ()
      [(''PINGPING'', ec_success), ([], ec_success), ([], ec_error connection_reset)]
      [(7, ec_success)]) =
      [ReadSome, WriteSome (reply pong_command ()), ReadSome, ReadSome, Shutdown_RDWR]
   \<and> length (filter is_read (ops (HandleRequests pong_command ()
      [(''PINGPING'', ec_success), ([], ec_success), ([], ec_error connection_reset)]
      [(7, ec_success)]))) = 3"
proof -
  have r: "outcome (HandleRequests pong_command ()
      [(''PINGPING'', ec_success), ([], ec_success), ([], ec_error connection_reset)]
      [(7, ec_success)]) = Returned"
    by (simp add: pong_command_def is_conn_closed_def)
  show ?thesis
    using r one_reply_per_chunk [where pc = pong_command and cmd = "()"
        and rs = "[(''PINGPING'', ec_success), ([], ec_success), ([], ec_error connection_reset)]"
        and ws = "[(7, ec_success)]"]
    by (simp add: pong_command_def is_conn_closed_def)
qed


section \<open>Properties of start-up and shutdown\<close>

subsection \<open>Construction\<close>

lemma positive_power_of_two_iff:
  "positive_power_of_two (unat (depth :: 32 word)) = (\<exists>k. unat depth = 2 ^ k)"
proof
  assume "positive_power_of_two (unat depth)"
  then show "\<exists>k. unat depth = 2 ^ k"
    by (auto simp: positive_power_of_two_def)
next
  assume "\<exists>k. unat depth = 2 ^ k"
  then obtain k where k: "unat depth = 2 ^ k" ..
  have "unat depth < 2 ^ 32"
    using unsigned_less [of depth, where 'a = nat] by simp
  then have "(2::nat) ^ k < 2 ^ 32"
    using k by simp
  then have "k < 32"
    using power_strict_increasing_iff [of "2::nat" k 32] by simp
  then show "positive_power_of_two (unat depth)"
    unfolding positive_power_of_two_def k by (simp del: upt.simps)
qed

text \<open>
  Claim C6. Constructing a Proactor with \<open>queue_depth\<close> succeeds for every positive
  power of two, the default 256 of the flag among them, and fails with a configuration
  error, returned to the caller by the construction itself, for every other value.
\<close>

theorem Proactor_new_power_of_two:
  "(\<exists>p. Proactor_new depth = Inr p) = (\<exists>k. unat depth = 2 ^ k)
   \<and> (Proactor_new depth = Inl ConfigError) = (\<not> (\<exists>k. unat depth = 2 ^ k))
   \<and> Proactor_new FLAGS_queue_depth = Inr \<lparr>queue_depth = 256\<rparr>"
proof (intro conjI)
  show "(\<exists>p. Proactor_new depth = Inr p) = (\<exists>k. unat depth = 2 ^ k)"
    unfolding positive_power_of_two_iff [symmetric] by (simp add: Proactor_new_def)
  show "(Proactor_new depth = Inl ConfigError) = (\<not> (\<exists>k. unat depth = 2 ^ k))"
    unfolding positive_power_of_two_iff [symmetric] by (simp add: Proactor_new_def)
  have "unat (256 :: 32 word) = 2 ^ 8"
    by simp
  then have "positive_power_of_two (unat (256 :: 32 word))"
    unfolding positive_power_of_two_iff by (rule exI)
  then show "Proactor_new FLAGS_queue_depth = Inr \<lparr>queue_depth = 256\<rparr>"
    by (simp add: Proactor_new_def FLAGS_queue_depth_def)
qed

subsection \<open>Order of shutdown\<close>

lemma guarded_snoc:
  "a \<noteq> b \<Longrightarrow> guarded a b (tr @ [e]) = (guarded a b tr \<and> (e = b \<longrightarrow> a \<in> set tr))"
  by (induction tr) auto

lemma trace_emit [simp]: "trace (emit e s) = trace s @ [e]"
  by (simp add: emit_def)

lemma fields_emit [simp]:
  "main_pc (emit e s) = main_pc s" "callback_pc (emit e s) = callback_pc s"
  "t1 (emit e s) = t1 s" "stop_requested (emit e s) = stop_requested s"
  by (simp_all add: emit_def)

lemma shutdown_inv_initial: "shutdown_inv initial"
  by (simp add: shutdown_inv_def initial_def)

lemma shutdown_inv_main_step:
  assumes "shutdown_inv s"
  shows "shutdown_inv (main_step s)"
proof -
  consider "main_pc s = 0" | "main_pc s = 1" | "main_pc s = 2" | "main_pc s = 3"
    | "main_pc s = 4" "t1 s = RunReturned" | "main_pc s = 4" "t1 s \<noteq> RunReturned"
    | "main_pc s = 5" | "main_pc s = 6" | "7 \<le> main_pc s"
    by linarith
  then show ?thesis
  proof cases
    case 1
    then show ?thesis
      using assms by (simp add: shutdown_inv_def main_step_def guarded_snoc)
  next
    case 2
    then show ?thesis
      using assms by (simp add: shutdown_inv_def main_step_def guarded_snoc)
  next
    case 3
    then show ?thesis
      using assms by (simp add: shutdown_inv_def main_step_def guarded_snoc)
  next
    case 4
    then show ?thesis
      using assms by (simp add: shutdown_inv_def main_step_def guarded_snoc)
  next
    case 5
    then show ?thesis
      using assms by (simp add: shutdown_inv_def main_step_def guarded_snoc)
  next
    case 6
    then show ?thesis
      using assms by (simp add: main_step_def)
  next
    case 7
    then show ?thesis
      using assms by (simp add: shutdown_inv_def main_step_def guarded_snoc)
  next
    case 8
    then show ?thesis
      using assms by (simp add: shutdown_inv_def main_step_def guarded_snoc)
  next
    case 9
    then show ?thesis
      using assms by (simp add: main_step_def)
  qed
qed

lemma shutdown_inv_proactor_step:
  assumes "shutdown_inv s"
  shows "shutdown_inv (proactor_step s)"
proof -
  consider "t1 s = Started" | "t1 s = Running" "stop_requested s"
    | "t1 s \<noteq> Started" "\<not> (t1 s = Running \<and> stop_requested s)"
    by blast
  then show ?thesis
  proof cases
    case 1
    then show ?thesis
      using assms by (simp add: shutdown_inv_def proactor_step_def guarded_snoc)
  next
    case 2
    then show ?thesis
      using assms by (simp add: shutdown_inv_def proactor_step_def guarded_snoc)
  next
    case 3
    then have "proactor_step s = s"
      by (auto simp: proactor_step_def)
    then show ?thesis
      using assms by simp
  qed
qed

lemma shutdown_inv_callback_step:
  assumes "shutdown_inv s"
  shows "shutdown_inv (callback_step s)"
proof -
  consider "main_pc s < 4" | "4 \<le> main_pc s" "callback_pc s = 0"
    | "4 \<le> main_pc s" "callback_pc s = 1" | "4 \<le> main_pc s" "2 \<le> callback_pc s"
    by linarith
  then show ?thesis
  proof cases
    case 1
    then show ?thesis
      using assms by (simp add: callback_step_def)
  next
    case 2
    then show ?thesis
      using assms by (simp add: shutdown_inv_def callback_step_def guarded_snoc)
  next
    case 3
    then show ?thesis
      using assms by (simp add: shutdown_inv_def callback_step_def guarded_snoc)
  next
    case 4
    then show ?thesis
      using assms by (simp add: callback_step_def)
  qed
qed

lemma shutdown_inv_turn: "shutdown_inv s \<Longrightarrow> shutdown_inv (turn s th)"
  by (cases th)
     (simp_all add: turn_def shutdown_inv_main_step shutdown_inv_proactor_step
        shutdown_inv_callback_step)

lemma shutdown_inv_foldl: "shutdown_inv s \<Longrightarrow> shutdown_inv (foldl turn s schedule)"
proof (induction schedule arbitrary: s)
  case Nil
  then show ?case by simp
next
  case (Cons th schedule)
  have "shutdown_inv (turn s th)"
    using Cons.prems by (rule shutdown_inv_turn)
  then have "shutdown_inv (foldl turn (turn s th) schedule)"
    by (rule Cons.IH)
  then show ?case by simp
qed

lemma shutdown_inv_run: "shutdown_inv (run schedule)"
  unfolding run_def using shutdown_inv_initial by (rule shutdown_inv_foldl)


text \<open>
  Claim C5. On a shutdown signal, shutdown proceeds top-down: in every interleaving of the
  threads the accept server is stopped, with \<open>wait = true\<close>, before
  \<open>Proactor::Stop\<close> is invoked (and \<open>Stop\<close> is never called on it with
  \<open>wait = false\<close>); \<open>Proactor::Run\<close> returns only after that \<open>Stop\<close>; and the
  thread running it has returned from \<open>Run\<close> and has been joined before the program
  exits.
\<close>

theorem shutdown_order:
  "guarded (UringAcceptorStop True) ProactorStop (trace (run schedule))
   \<and> UringAcceptorStop False \<notin> set (trace (run schedule))
   \<and> guarded ProactorStop ProactorRunReturned (trace (run schedule))
   \<and> guarded ProactorRunReturned ThreadJoined (trace (run schedule))
   \<and> guarded ThreadJoined ProgramExit (trace (run schedule))"
  using shutdown_inv_run [of schedule] by (simp add: shutdown_inv_def)

text \<open>A schedule along which the process runs to its exit, with the trace it leaves.\<close>

theorem shutdown_order_witness:
  "trace (run [MainThread, MainThread, ProactorThread, MainThread, MainThread, MainThread,
               BreakCallback, ProactorThread, BreakCallback, ProactorThread,
               MainThread, MainThread, MainThread]) =
     [ProactorConstructed, ThreadStarted, ProactorRunEntered, UringAcceptorRun,
      BreakCallbackRegistered, UringAcceptorStop True, ProactorStop, ProactorRunReturned,
      ThreadJoined, AcceptServerStop True, ProgramExit]
   \<and> guarded (UringAcceptorStop True) ProactorStop
        (trace (run [MainThread, MainThread, ProactorThread, MainThread, MainThread, MainThread,
               BreakCallback, ProactorThread, BreakCallback, ProactorThread,
               MainThread, MainThread, MainThread]))"
proof -
  have "trace (run [MainThread, MainThread, ProactorThread, MainThread, MainThread, MainThread,
               BreakCallback, ProactorThread, BreakCallback, ProactorThread,
               MainThread, MainThread, MainThread]) =
     [ProactorConstructed, ThreadStarted, ProactorRunEntered, UringAcceptorRun,
      BreakCallbackRegistered, UringAcceptorStop True, ProactorStop, ProactorRunReturned,
      ThreadJoined, AcceptServerStop True, ProgramExit]"
    by code_simp
  then show ?thesis
    using shutdown_order [of "[MainThread, MainThread, ProactorThread, MainThread, MainThread,
               MainThread, BreakCallback, ProactorThread, BreakCallback, ProactorThread,
               MainThread, MainThread, MainThread]"]
    by simp
qed


section \<open>Properties of the checked integer parser\<close>

lemma kAsciiToInt_all: "\<forall>n \<in> set [0..<256]. kAsciiToInt ! n = table_digit n"
  by code_simp

lemma kAsciiToInt_of_char:
  "kAsciiToInt ! of_char c = (case digit_of c of None \<Rightarrow> 36 | Some d \<Rightarrow> d)"
proof -
  have "(of_char c :: nat) < 256" by simp
  then have "kAsciiToInt ! of_char c = table_digit (of_char c)"
    using kAsciiToInt_all by simp
  then show ?thesis
    by (simp add: table_digit_def digit_of_def Let_def)
qed

lemma digit_of_range: "digit_of c = Some d \<Longrightarrow> 0 \<le> d \<and> d < 36"
  by (auto simp: digit_of_def Let_def split: if_splits)

lemma kAsciiToInt_valid:
  "base \<le> 36 \<Longrightarrow> (kAsciiToInt ! of_char c < base) = is_digit_in base c"
  by (auto simp: kAsciiToInt_of_char is_digit_in_def split: option.splits)

lemma kAsciiToInt_the:
  "is_digit_in base c \<Longrightarrow> kAsciiToInt ! of_char c = the (digit_of c)"
  by (auto simp: kAsciiToInt_of_char is_digit_in_def split: option.splits)

lemma is_digit_in_nonneg: "is_digit_in base c \<Longrightarrow> 0 \<le> the (digit_of c) \<and> the (digit_of c) < base"
  by (auto simp: is_digit_in_def split: option.splits dest: digit_of_range)


lemma le_div_iff_mult_le:
  fixes v m b :: int
  assumes "0 < b"
  shows "(v \<le> m div b) = (v * b \<le> m)"
proof
  assume "v \<le> m div b"
  then have "v * b \<le> (m div b) * b"
    using assms by (simp add: mult_right_mono)
  also have "\<dots> = m - m mod b"
    by (simp add: minus_mod_eq_div_mult)
  also have "\<dots> \<le> m"
    using assms by simp
  finally show "v * b \<le> m" .
next
  assume "v * b \<le> m"
  then have "(v * b) div b \<le> m div b"
    using assms by (rule zdiv_mono1)
  then show "v \<le> m div b"
    using assms by simp
qed

lemma two_power_bits: "1 \<le> bits \<Longrightarrow> (2::int) ^ bits = 2 * 2 ^ (bits - 1)"
  by (cases bits) simp_all

lemma wrap_id: "1 \<le> bits \<Longrightarrow> fits bits x \<Longrightarrow> wrap bits x = x"
proof -
  assume b: "1 \<le> bits" and f: "fits bits x"
  have "0 \<le> x + 2 ^ (bits - 1)" "x + 2 ^ (bits - 1) < 2 ^ bits"
    using f two_power_bits [OF b] by (simp_all add: fits_def)
  then have "(x + 2 ^ (bits - 1)) mod 2 ^ bits = x + 2 ^ (bits - 1)"
    by simp
  then show ?thesis by (simp add: wrap_def)
qed

lemma vmax_ge_127: "8 \<le> bits \<Longrightarrow> 127 \<le> vmax bits"
proof -
  assume "8 \<le> bits"
  then have "(2::int) ^ 7 \<le> 2 ^ (bits - 1)"
    by (intro power_increasing) simp_all
  then show ?thesis by (simp add: vmax_def)
qed

lemma fits_iff: "fits bits v = (vmin bits \<le> v \<and> v \<le> vmax bits)"
  by (auto simp: fits_def vmin_def vmax_def)

lemma vmin_neg: "vmin bits < 0"
  by (simp add: vmin_def)

lemma cdiv_pos: "0 \<le> a \<Longrightarrow> 0 < b \<Longrightarrow> cdiv a b = a div b"
  by (cases "a = 0") (simp_all add: cdiv_def sgn_if)

lemma cdiv_neg: "a < 0 \<Longrightarrow> 0 < b \<Longrightarrow> cdiv a b = - ((- a) div b)"
  by (simp add: cdiv_def sgn_if)

lemma vmin_over_base_eq:
  assumes "0 < base"
  shows "vmin_over_base bits base = - (2 ^ (bits - 1) div base)"
proof -
  have neg: "vmin bits < 0" by (simp add: vmin_def)
  have c: "cdiv (vmin bits) base = - (2 ^ (bits - 1) div base)"
    using cdiv_neg [OF neg assms] by (simp add: vmin_def)
  have "(2 ^ (bits - 1) div base) * base \<le> (2::int) ^ (bits - 1)"
    using assms by (simp add: minus_mod_eq_div_mult [symmetric])
  then have "cmod (vmin bits) base \<le> 0"
    unfolding cmod_def c by (simp add: vmin_def mult.commute)
  then show ?thesis
    by (simp add: vmin_over_base_def c)
qed

lemma ge_vmin_over_base_iff:
  assumes "0 < base"
  shows "(vmin_over_base bits base \<le> v) = (vmin bits \<le> v * base)"
proof -
  have "(vmin_over_base bits base \<le> v) = (- v \<le> 2 ^ (bits - 1) div base)"
    by (simp add: vmin_over_base_eq [OF assms] minus_le_iff)
  also have "\<dots> = (- v * base \<le> 2 ^ (bits - 1))"
    using assms by (rule le_div_iff_mult_le)
  also have "\<dots> = (vmin bits \<le> v * base)"
    by (simp add: vmin_def minus_le_iff)
  finally show ?thesis .
qed


lemma digit_string_Cons [simp]:
  "digit_string base (c # cs) = (is_digit_in base c \<and> digit_string base cs)"
  by (simp add: digit_string_def)

lemma digit_string_Nil [simp]: "digit_string base []"
  by (simp add: digit_string_def)

lemma foldl_add_digit_ge:
  "digit_string base cs \<Longrightarrow> 1 \<le> base \<Longrightarrow> 0 \<le> v \<Longrightarrow>
   v \<le> foldl (\<lambda>v c. v * base + the (digit_of c)) v cs"
proof (induction cs arbitrary: v)
  case Nil
  show ?case by simp
next
  case (Cons c cs)
  have d: "0 \<le> the (digit_of c)"
    using Cons.prems(1) is_digit_in_nonneg [of base c] by simp
  have "v * 1 \<le> v * base"
    using Cons.prems(2,3) by (intro mult_left_mono) simp_all
  then have step: "v \<le> v * base + the (digit_of c)"
    using d by simp
  then have "0 \<le> v * base + the (digit_of c)"
    using Cons.prems(3) by simp
  then have "v * base + the (digit_of c)
      \<le> foldl (\<lambda>v c. v * base + the (digit_of c)) (v * base + the (digit_of c)) cs"
    using Cons.prems(1,2) by (intro Cons.IH) simp_all
  with step show ?case by simp
qed

lemma positive_loop_correct:
  assumes "2 \<le> base" "base \<le> 36" "8 \<le> bits"
  shows "0 \<le> v \<Longrightarrow> v \<le> vmax bits \<Longrightarrow>
    positive_loop bits base v cs =
      (if digit_string base cs \<and> foldl (\<lambda>v c. v * base + the (digit_of c)) v cs \<le> vmax bits
       then Some (foldl (\<lambda>v c. v * base + the (digit_of c)) v cs) else None)"
proof (induction cs arbitrary: v)
  case Nil
  then show ?case by simp
next
  case (Cons c cs)
  let ?f = "\<lambda>v c. v * base + the (digit_of c)"
  let ?digit = "kAsciiToInt ! of_char c"
  have b0: "0 < base" "1 \<le> base" using assms(1) by simp_all
  have bits1: "1 \<le> bits" using assms(3) by simp
  have big: "127 \<le> vmax bits" using assms(3) by (rule vmax_ge_127)
  have vmax0: "0 \<le> vmax bits" using big by simp
  have over: "cdiv (vmax bits) base = vmax bits div base"
    using vmax0 b0(1) by (rule cdiv_pos)
  have guard: "(v > cdiv (vmax bits) base) = (v * base > vmax bits)"
    using le_div_iff_mult_le [OF b0(1), of v "vmax bits"] by (auto simp: over)
  have valid: "(?digit \<ge> base) = (\<not> is_digit_in base c)"
    using kAsciiToInt_valid [OF assms(2), of c] by auto
  show ?case
  proof (cases "is_digit_in base c")
    case False
    with valid show ?thesis by (simp add: Let_def)
  next
    case True
    then have dg: "?digit = the (digit_of c)"
      by (rule kAsciiToInt_the)
    have d: "0 \<le> the (digit_of c)" "the (digit_of c) < base"
      using is_digit_in_nonneg [OF True] by simp_all
    have vb0: "0 \<le> v * base"
      using Cons.prems(1) b0 by simp
    have sub: "wrap bits (vmax bits - the (digit_of c)) = vmax bits - the (digit_of c)"
      using d assms(2) big vmin_neg [of bits] by (intro wrap_id [OF bits1]) (simp add: fits_iff)
    show ?thesis
    proof (cases "v * base + the (digit_of c) \<le> vmax bits")
      case fit: True
      then have vb: "v * base \<le> vmax bits" using d by simp
      have w1: "wrap bits (v * base) = v * base"
        using vb vb0 vmin_neg [of bits] by (intro wrap_id [OF bits1]) (simp add: fits_iff)
      have w2: "wrap bits (v * base + the (digit_of c)) = v * base + the (digit_of c)"
        using fit vb0 d vmin_neg [of bits] by (intro wrap_id [OF bits1]) (simp add: fits_iff)
      have "0 \<le> v * base + the (digit_of c)" using vb0 d by simp
      then have ih: "positive_loop bits base (v * base + the (digit_of c)) cs =
          (if digit_string base cs \<and> foldl ?f (v * base + the (digit_of c)) cs \<le> vmax bits
           then Some (foldl ?f (v * base + the (digit_of c)) cs) else None)"
        using fit by (rule Cons.IH)
      have g: "\<not> v > cdiv (vmax bits) base" using guard vb by simp
      have g2: "\<not> v * base > vmax bits - the (digit_of c)" using fit by simp
      show ?thesis
        using True valid g g2
        by (simp add: Let_def dg w1 sub w2 ih)
    next
      case nofit: False
      have none: "positive_loop bits base v (c # cs) = None"
      proof (cases "v * base \<le> vmax bits")
        case False
        then show ?thesis using guard by (simp add: Let_def)
      next
        case vb: True
        have w1: "wrap bits (v * base) = v * base"
          using vb vb0 vmin_neg [of bits] by (intro wrap_id [OF bits1]) (simp add: fits_iff)
        have g2: "v * base > vmax bits - the (digit_of c)" using nofit by simp
        show ?thesis
          using g2 by (simp add: Let_def dg w1 sub)
      qed
      have "\<not> (digit_string base cs \<and> foldl ?f (v * base + the (digit_of c)) cs \<le> vmax bits)"
      proof
        assume a: "digit_string base cs \<and> foldl ?f (v * base + the (digit_of c)) cs \<le> vmax bits"
        have "0 \<le> v * base + the (digit_of c)" using vb0 d by simp
        then have "v * base + the (digit_of c) \<le> foldl ?f (v * base + the (digit_of c)) cs"
          using a b0 by (intro foldl_add_digit_ge) simp_all
        with a nofit show False by simp
      qed
      with none show ?thesis by simp
    qed
  qed
qed


lemma foldl_sub_digit_le:
  "digit_string base cs \<Longrightarrow> 1 \<le> base \<Longrightarrow> v \<le> 0 \<Longrightarrow>
   foldl (\<lambda>v c. v * base - the (digit_of c)) v cs \<le> v"
proof (induction cs arbitrary: v)
  case Nil
  show ?case by simp
next
  case (Cons c cs)
  have d: "0 \<le> the (digit_of c)"
    using Cons.prems(1) is_digit_in_nonneg [of base c] by simp
  have "(- v) * 1 \<le> (- v) * base"
    using Cons.prems(2,3) by (intro mult_left_mono) simp_all
  then have step: "v * base - the (digit_of c) \<le> v"
    using d by simp
  then have "v * base - the (digit_of c) \<le> 0"
    using Cons.prems(3) by simp
  then have "foldl (\<lambda>v c. v * base - the (digit_of c)) (v * base - the (digit_of c)) cs
      \<le> v * base - the (digit_of c)"
    using Cons.prems(1,2) by (intro Cons.IH) simp_all
  with step show ?case by simp
qed

lemma negative_loop_correct:
  assumes "2 \<le> base" "base \<le> 36" "8 \<le> bits"
  shows "vmin bits \<le> v \<Longrightarrow> v \<le> 0 \<Longrightarrow>
    negative_loop bits base v cs =
      (if digit_string base cs \<and> vmin bits \<le> foldl (\<lambda>v c. v * base - the (digit_of c)) v cs
       then Some (foldl (\<lambda>v c. v * base - the (digit_of c)) v cs) else None)"
proof (induction cs arbitrary: v)
  case Nil
  then show ?case by simp
next
  case (Cons c cs)
  let ?g = "\<lambda>v c. v * base - the (digit_of c)"
  let ?digit = "kAsciiToInt ! of_char c"
  have b0: "0 < base" "1 \<le> base" using assms(1) by simp_all
  have bits1: "1 \<le> bits" using assms(3) by simp
  have big: "127 \<le> vmax bits" using assms(3) by (rule vmax_ge_127)
  note vneg = vmin_neg [of bits]
  have guard: "(v < vmin_over_base bits base) = (v * base < vmin bits)"
    using ge_vmin_over_base_iff [OF b0(1), of bits v] by auto
  have valid: "(?digit \<ge> base) = (\<not> is_digit_in base c)"
    using kAsciiToInt_valid [OF assms(2), of c] by auto
  show ?case
  proof (cases "is_digit_in base c")
    case False
    with valid show ?thesis by (simp add: Let_def)
  next
    case True
    then have dg: "?digit = the (digit_of c)"
      by (rule kAsciiToInt_the)
    have d: "0 \<le> the (digit_of c)" "the (digit_of c) < base"
      using is_digit_in_nonneg [OF True] by simp_all
    have vb0: "v * base \<le> 0"
      using Cons.prems(2) b0 by (simp add: mult_le_0_iff)
    have sub: "wrap bits (vmin bits + the (digit_of c)) = vmin bits + the (digit_of c)"
      using d assms(2) big vneg by (intro wrap_id [OF bits1]) (simp add: fits_iff)
    show ?thesis
    proof (cases "vmin bits \<le> v * base - the (digit_of c)")
      case fit: True
      then have vb: "vmin bits \<le> v * base" using d by simp
      have w1: "wrap bits (v * base) = v * base"
        using vb vb0 big by (intro wrap_id [OF bits1]) (simp add: fits_iff)
      have w2: "wrap bits (v * base - the (digit_of c)) = v * base - the (digit_of c)"
        using fit vb0 d big by (intro wrap_id [OF bits1]) (simp add: fits_iff)
      have "v * base - the (digit_of c) \<le> 0" using vb0 d by simp
      with fit have ih: "negative_loop bits base (v * base - the (digit_of c)) cs =
          (if digit_string base cs \<and> vmin bits \<le> foldl ?g (v * base - the (digit_of c)) cs
           then Some (foldl ?g (v * base - the (digit_of c)) cs) else None)"
        by (rule Cons.IH)
      have g: "\<not> v < vmin_over_base bits base" using guard vb by simp
      have g2: "\<not> v * base < vmin bits + the (digit_of c)" using fit by simp
      show ?thesis
        using True valid g g2
        by (simp add: Let_def dg w1 sub w2 ih)
    next
      case nofit: False
      have none: "negative_loop bits base v (c # cs) = None"
      proof (cases "vmin bits \<le> v * base")
        case False
        then show ?thesis using guard by (simp add: Let_def)
      next
        case vb: True
        have w1: "wrap bits (v * base) = v * base"
          using vb vb0 big by (intro wrap_id [OF bits1]) (simp add: fits_iff)
        have g2: "v * base < vmin bits + the (digit_of c)" using nofit by simp
        show ?thesis
          using g2 by (simp add: Let_def dg w1 sub)
      qed
      have "\<not> (digit_string base cs \<and> vmin bits \<le> foldl ?g (v * base - the (digit_of c)) cs)"
      proof
        assume a: "digit_string base cs \<and> vmin bits \<le> foldl ?g (v * base - the (digit_of c)) cs"
        have "v * base - the (digit_of c) \<le> 0" using vb0 d by simp
        then have "foldl ?g (v * base - the (digit_of c)) cs \<le> v * base - the (digit_of c)"
          using a b0 by (intro foldl_sub_digit_le) simp_all
        with a nofit show False by simp
      qed
      with none show ?thesis by simp
    qed
  qed
qed

lemma foldl_sub_digit_neg:
  "foldl (\<lambda>v c. v * base - the (digit_of c)) (- w) cs =
   - foldl (\<lambda>v c. v * base + the (digit_of c)) w cs"
proof (induction cs arbitrary: w)
  case Nil
  show ?case by simp
next
  case (Cons c cs)
  have "- w * base - the (digit_of c) = - (w * base + the (digit_of c))"
    by simp
  then show ?case
    using Cons.IH [of "w * base + the (digit_of c)"] by simp
qed

lemma digits_value_nonneg:
  "digit_string base cs \<Longrightarrow> 1 \<le> base \<Longrightarrow> 0 \<le> digits_value base cs"
  unfolding digits_value_def using foldl_add_digit_ge [of base cs 0] by simp

lemma safe_parse_positive_int_correct:
  assumes "2 \<le> base" "base \<le> 36" "8 \<le> bits"
  shows "safe_parse_positive_int bits cs base =
    (if digit_string base cs \<and> fits bits (digits_value base cs)
     then Some (digits_value base cs) else None)"
proof -
  have "0 \<le> vmax bits" using vmax_ge_127 [OF assms(3)] by simp
  then have "positive_loop bits base 0 cs =
      (if digit_string base cs \<and> digits_value base cs \<le> vmax bits
       then Some (digits_value base cs) else None)"
    unfolding digits_value_def by (intro positive_loop_correct [OF assms]) simp_all
  moreover have "digit_string base cs \<Longrightarrow>
      fits bits (digits_value base cs) = (digits_value base cs \<le> vmax bits)"
    using digits_value_nonneg [of base cs] assms(1) vmin_neg [of bits]
    by (simp add: fits_iff)
  ultimately show ?thesis
    by (auto simp: safe_parse_positive_int_def)
qed

lemma safe_parse_negative_int_correct:
  assumes "2 \<le> base" "base \<le> 36" "8 \<le> bits"
  shows "safe_parse_negative_int bits cs base =
    (if digit_string base cs \<and> fits bits (- digits_value base cs)
     then Some (- digits_value base cs) else None)"
proof -
  have neg: "foldl (\<lambda>v c. v * base - the (digit_of c)) 0 cs = - digits_value base cs"
    using foldl_sub_digit_neg [of base 0 cs] by (simp add: digits_value_def)
  have "vmin bits \<le> 0" using vmin_neg [of bits] by simp
  then have "negative_loop bits base 0 cs =
      (if digit_string base cs \<and> vmin bits \<le> - digits_value base cs
       then Some (- digits_value base cs) else None)"
    unfolding neg [symmetric] by (intro negative_loop_correct [OF assms]) simp_all
  moreover have "digit_string base cs \<Longrightarrow>
      fits bits (- digits_value base cs) = (vmin bits \<le> - digits_value base cs)"
    using digits_value_nonneg [of base cs] assms(1) vmax_ge_127 [OF assms(3)]
    by (simp add: fits_iff)
  ultimately show ?thesis
    by (auto simp: safe_parse_negative_int_def)
qed


lemma trim_Nil_after_sign: "trim s = [] \<Longrightarrow> after_sign (trim s) = []"
  by (simp add: after_sign_def)

lemma safe_parse_sign_and_base_eq:
  assumes "base = 0 \<or> (2 \<le> base \<and> base \<le> 36)"
  shows "safe_parse_sign_and_base s base =
    (if after_sign (trim s) = [] then None
     else Some (after_prefix base (after_sign (trim s)),
                effective_base base (after_sign (trim s)), negative_sign (trim s)))"
proof (cases "trim s")
  case Nil
  have t2: "rev (dropWhile ascii_isspace (rev (dropWhile ascii_isspace s))) = []"
    using Nil unfolding trim_def .
  show ?thesis
    unfolding safe_parse_sign_and_base_def Let_def t2 Nil
    by (simp add: after_sign_def)
next
  case (Cons c cs)
  have t2: "rev (dropWhile ascii_isspace (rev (dropWhile ascii_isspace s))) = c # cs"
    using Cons unfolding trim_def .
  have one: "\<And>u. (length u \<ge> 1 \<and> u ! 0 = CHR ''0'') = (take 1 u = ''0'')"
  proof -
    fix u :: string
    show "(length u \<ge> 1 \<and> u ! 0 = CHR ''0'') = (take 1 u = ''0'')"
      by (cases u) simp_all
  qed
  show ?thesis
    using assms
    unfolding safe_parse_sign_and_base_def Let_def t2 Cons one
    by (auto simp: after_sign_def negative_sign_def after_prefix_def effective_base_def)
qed

lemma effective_base_range:
  "base = 0 \<or> (2 \<le> base \<and> base \<le> 36) \<Longrightarrow>
   2 \<le> effective_base base u \<and> effective_base base u \<le> 36"
  by (auto simp: effective_base_def)

lemma safe_int_internal_eq:
  assumes "base = 0 \<or> (2 \<le> base \<and> base \<le> 36)" and "8 \<le> bits"
  shows "safe_int_internal bits s base =
    (let u = after_sign (trim s);
         b = effective_base base u;
         ds = after_prefix base u;
         v = (if negative_sign (trim s) then - digits_value b ds else digits_value b ds)
     in if u \<noteq> [] \<and> digit_string b ds \<and> fits bits v then Some v else None)"
proof -
  let ?u = "after_sign (trim s)"
  have r: "2 \<le> effective_base base ?u" "effective_base base ?u \<le> 36"
    using effective_base_range [OF assms(1), of ?u] by simp_all
  show ?thesis
    unfolding safe_int_internal_def safe_parse_sign_and_base_eq [OF assms(1)] Let_def
    by (simp add: safe_parse_positive_int_correct [OF r assms(2)]
        safe_parse_negative_int_correct [OF r assms(2)])
qed

lemma empty_digits_cases:
  assumes "u \<noteq> []" and "after_prefix base u = []"
  shows "(base = 0 \<and> u = ''0'') \<or> ((base = 0 \<or> base = 16) \<and> hex_prefixed u \<and> length u = 2)"
proof -
  have one: "take 1 u = ''0'' \<Longrightarrow> drop 1 u = [] \<Longrightarrow> u = ''0''"
    by (metis append_Nil2 append_take_drop_id)
  have two: "hex_prefixed u \<Longrightarrow> drop 2 u = [] \<Longrightarrow> length u = 2"
    by (simp add: hex_prefixed_def)
  show ?thesis
    using assms one two
    by (auto simp: after_prefix_def split: if_splits)
qed

lemma safe_int_internal_checked:
  assumes "base = 0 \<or> (2 \<le> base \<and> base \<le> 36)" and "8 \<le> bits"
    and "\<not> lone_hex_prefix s base"
  shows "safe_int_internal bits s base = checked_parse bits s base"
proof -
  let ?u = "after_sign (trim s)"
  have "(?u \<noteq> []) = (after_prefix base ?u \<noteq> [] \<or> (base = 0 \<and> ?u = ''0''))"
  proof (cases "?u = []")
    case True
    then show ?thesis by (simp add: after_prefix_def)
  next
    case False
    then show ?thesis
      using empty_digits_cases [OF False, of base] assms(3)
      by (auto simp: lone_hex_prefix_def)
  qed
  then show ?thesis
    unfolding safe_int_internal_eq [OF assms(1,2)] checked_parse_def Let_def by simp
qed

text \<open>
  What the theorem below leaves out: a string that is a hexadecimal prefix and nothing
  more is accepted, with the value 0, although no digit follows the prefix. The code
  rejects a string that ends after the sign, but has no such test after the prefix.
\<close>

lemma lone_hex_prefix_accepted:
  assumes "lone_hex_prefix s base" and "8 \<le> bits"
  shows "safe_int_internal bits s base = Some 0"
proof -
  let ?u = "after_sign (trim s)"
  have b: "base = 0 \<or> (2 \<le> base \<and> base \<le> 36)"
    using assms(1) by (auto simp: lone_hex_prefix_def)
  have u: "?u \<noteq> []" "after_prefix base ?u = []"
    using assms(1) by (auto simp: lone_hex_prefix_def after_prefix_def)
  show ?thesis
    unfolding safe_int_internal_eq [OF b assms(2)] Let_def
    using u by (simp add: digits_value_def fits_def)
qed

text \<open>
  Claim C8, as stated: for base 0 or a base from 2 to 36, the functions return true
  exactly when the string, after trimming and consuming the optional sign and base
  prefix, is a non-empty digit string whose value fits. In base 0 the string \<open>0\<close> is
  consumed as the octal prefix, no digit is left, and the code returns true with 0.
\<close>

theorem safe_strto32_base_counterexample:
  "safe_strto32_base ''0'' 0 = Some 0 \<and> claimed_parse 32 ''0'' 0 = None"
  by (simp add: safe_strto32_base_def safe_int_internal_def safe_parse_sign_and_base_def
      safe_parse_positive_int_def claimed_parse_def trim_def after_sign_def after_prefix_def
      effective_base_def hex_prefixed_def ascii_isspace_def Let_def)

text \<open>
  Claim C8, amended. For base 0 or a base from 2 to 36, and a string that is not a bare
  hexadecimal prefix, \<open>safe_strto32_base\<close> (and likewise \<open>safe_strto64_base\<close>)
  returns true if and only if the string, after trimming ASCII whitespace and consuming
  an optional sign and the base prefix, is a digit string in the base (the given one, or
  for base 0 the one the prefix selects) whose value, negated after a minus sign, fits
  \<open>int32\<close> (\<open>int64\<close>), the most negative value included; the digit string must be
  non-empty, except that in base 0 the string \<open>0\<close> denotes 0. When it returns true the
  value stored is that value; on an out-of-range value it returns false and nothing wraps.
\<close>

theorem safe_strto_base_checked:
  assumes "base = 0 \<or> (2 \<le> base \<and> base \<le> 36)" and "\<not> lone_hex_prefix s base"
  shows "safe_strto32_base s base = checked_parse 32 s base
       \<and> safe_strto64_base s base = checked_parse 64 s base"
  using assms
  by (simp add: safe_strto32_base_def safe_strto64_base_def safe_int_internal_checked)


theorem safe_strto_base_checked_witness:
  "((10::int) = 0 \<or> (2 \<le> (10::int) \<and> (10::int) \<le> 36))
   \<and> \<not> lone_hex_prefix '' -2147483648 '' 10
   \<and> safe_strto32_base '' -2147483648 '' 10 = Some (- 2147483648)
   \<and> safe_strto64_base '' -2147483648 '' 10 = Some (- 2147483648)
   \<and> \<not> lone_hex_prefix ''2147483648'' 10
   \<and> safe_strto32_base ''2147483648'' 10 = None
   \<and> safe_strto64_base ''2147483648'' 10 = Some 2147483648"
proof -
  have h1: "(10::int) = 0 \<or> (2 \<le> (10::int) \<and> (10::int) \<le> 36)"
    by simp
  have h2: "\<not> lone_hex_prefix '' -2147483648 '' 10"
    by (simp add: lone_hex_prefix_def)
  have h3: "\<not> lone_hex_prefix ''2147483648'' 10"
    by (simp add: lone_hex_prefix_def)
  have e1: "checked_parse 32 '' -2147483648 '' 10 = Some (- 2147483648)"
    by code_simp
  have e2: "checked_parse 64 '' -2147483648 '' 10 = Some (- 2147483648)"
    by code_simp
  have e3: "checked_parse 32 ''2147483648'' 10 = None"
    by code_simp
  have e4: "checked_parse 64 ''2147483648'' 10 = Some 2147483648"
    by code_simp
  show ?thesis
    using h1 h2 h3 e1 e2 e3 e4
      safe_strto_base_checked [OF h1 h2] safe_strto_base_checked [OF h1 h3]
    by simp
qed


section \<open>FastUInt32ToBufferLeft and the naive formatter\<close>

declare naive_decimal.simps [simp del]

lemma two_ASCII_digits_all:
  "\<forall>d \<in> set [0..<100]. (let e = two_ASCII_digits ! d in [e ! 0, e ! 1]) = two d"
  by code_simp

lemma two_ASCII_digits_eq:
  "d < 100 \<Longrightarrow> (let e = two_ASCII_digits ! d in [e ! 0, e ! 1]) = two d"
  using two_ASCII_digits_all by simp

lemma naive_decimal_digit: "n < 10 \<Longrightarrow> naive_decimal n = [char_of (48 + n)]"
  by (simp add: naive_decimal.simps)

lemma naive_decimal_two: "10 \<le> n \<Longrightarrow> n < 100 \<Longrightarrow> naive_decimal n = two n"
  by (subst naive_decimal.simps) (simp add: naive_decimal_digit two_def)

lemma naive_decimal_step:
  assumes "1 \<le> q" "r < 100"
  shows "naive_decimal (q * 100 + r) = naive_decimal q @ two r"
proof -
  have a: "(q * 100 + r) div 10 = q * 10 + r div 10"
    by simp
  have "q * 100 + r = r + (q * 10) * 10"
    by simp
  then have b: "(q * 100 + r) mod 10 = r mod 10"
    by (metis mod_mult_self1)
  have c: "(q * 10 + r div 10) div 10 = q" and d: "(q * 10 + r div 10) mod 10 = r div 10"
    using assms by simp_all
  have "naive_decimal (q * 100 + r) = naive_decimal (q * 10 + r div 10) @ [char_of (48 + r mod 10)]"
    using assms by (subst naive_decimal.simps) (simp add: a b)
  also have "naive_decimal (q * 10 + r div 10) = naive_decimal q @ [char_of (48 + r div 10)]"
    using assms by (subst naive_decimal.simps) (simp add: c d)
  finally show ?thesis by (simp add: two_def)
qed

lemma naive_decimal_groups:
  "1 \<le> q \<Longrightarrow> r < 100 ^ k \<Longrightarrow> naive_decimal (q * 100 ^ k + r) = naive_decimal q @ groups k r"
proof (induction k arbitrary: q r)
  case 0
  then show ?case by simp
next
  case (Suc k)
  let ?h = "r div 100 ^ k" and ?l = "r mod 100 ^ k"
  have h: "?h < 100" using Suc.prems(2)
    by (simp add: less_mult_imp_div_less mult.commute)
  have "q * 100 ^ Suc k + r = (q * 100 + ?h) * 100 ^ k + ?l"
    by (simp add: algebra_simps)
  also have "naive_decimal \<dots> = naive_decimal (q * 100 + ?h) @ groups k ?l"
    using Suc.prems(1) by (intro Suc.IH) simp_all
  finally show ?case using Suc.prems(1) h by (simp add: naive_decimal_step)
qed

lemma sint_small:
  assumes "unat (w :: 32 word) < 2147483648"
  shows "sint w = int (unat w)"
proof -
  have p: "(2::int) ^ (LENGTH(32) - Suc 0) = 2147483648"
    by simp
  have "0 \<le> int (unat w)" "int (unat w) < 2147483648"
    using assms by linarith+
  then have a: "- (2 ^ (LENGTH(32) - Suc 0)) \<le> uint w"
    and b: "uint w < 2 ^ (LENGTH(32) - Suc 0)"
    unfolding p uint_nat by linarith+
  have "sint w = signed_take_bit (LENGTH(32) - Suc 0) (uint w)"
    by (rule sint_uint)
  also have "\<dots> = uint w"
    using a b by (rule signed_take_bit_int_eq_self)
  finally show ?thesis
    by (simp only: uint_nat)
qed

lemma sint_div:
  fixes u k :: "32 word"
  assumes "unat u div K < 2147483648" and "unat k = K"
  shows "sint (u div k) = int (unat u div K)"
proof -
  have e: "unat (u div k) = unat u div K"
    by (simp only: unat_div assms(2))
  have "unat (u div k) < 2147483648"
    unfolding e by (rule assms(1))
  then have "sint (u div k) = int (unat (u div k))"
    by (rule sint_small)
  then show ?thesis
    by (simp only: e)
qed

lemma subtract_product_div:
  fixes u k :: "32 word"
  assumes "int (unat u div K) * int K \<le> 2147483647" and "unat k = K"
  shows "subtract_product u (int (unat u div K)) (int K) = Inr (u mod k)"
proof -
  have "0 \<le> int (unat u div K) * int K"
    by simp
  then have "- 2147483648 \<le> int (unat u div K) * int K"
    by linarith
  then have t: "int_times (int (unat u div K)) (int K) = Inr (int (unat u div K) * int K)"
    using assms(1) by (simp only: int_times_def simp_thms if_True)
  have "(word_of_int (int (unat u div K) * int K) :: 32 word) =
      word_of_nat (unat u div unat k) * word_of_nat (unat k)"
    by (simp add: assms(2))
  also have "\<dots> = u div k * k"
    by (simp add: unat_div [symmetric])
  finally have "u - word_of_int (int (unat u div K) * int K) = u mod k"
    by (simp add: minus_div_mult_eq_mod)
  then show ?thesis
    by (simp add: subtract_product_def t)
qed

lemma lbl_lt100_eq:
  assumes "unat u < 100"
  shows "lbl_lt100 u buffer = lbl_done (buffer @ two (unat u))"
proof -
  have "sint u = int (unat u)"
    using assms by (intro sint_small) simp
  then show ?thesis
    using two_ASCII_digits_eq [OF assms] by (simp add: lbl_lt100_def Let_def)
qed

lemma lbl_lt10_000_eq:
  assumes "unat u < 10000"
  shows "lbl_lt10_000 u buffer =
         lbl_done (buffer @ two (unat u div 100) @ two (unat u mod 100))"
proof -
  have lt: "unat u div 100 < 100" using assms by simp
  have d: "sint (u div 100) = int (unat u div 100)"
    by (rule sint_div) (use lt in simp_all)
  have "int (unat u div 100) * 100 \<le> 2147483647"
    using lt by simp
  then have s: "subtract_product u (int (unat u div 100)) 100 = Inr (u mod 100)"
    using subtract_product_div [of u 100 100] by simp
  have r: "unat (u mod 100) = unat u mod 100"
    by (simp add: unat_mod)
  show ?thesis
    using two_ASCII_digits_eq [OF lt]
    by (simp add: lbl_lt10_000_def lbl_sublt100_def Let_def d s lbl_lt100_eq r)
qed

lemma lbl_lt1_000_000_eq:
  assumes "unat u < 1000000"
  shows "lbl_lt1_000_000 u buffer =
         lbl_done (buffer @ two (unat u div 10000) @ two (unat u mod 10000 div 100)
                   @ two (unat u mod 10000 mod 100))"
proof -
  have lt: "unat u div 10000 < 100" using assms by simp
  have d: "sint (u div 10000) = int (unat u div 10000)"
    by (rule sint_div) (use lt in simp_all)
  have "int (unat u div 10000) * 10000 \<le> 2147483647"
    using lt by simp
  then have s: "subtract_product u (int (unat u div 10000)) 10000 = Inr (u mod 10000)"
    using subtract_product_div [of u 10000 10000] by simp
  have r: "unat (u mod 10000) = unat u mod 10000"
    by (simp add: unat_mod)
  show ?thesis
    using two_ASCII_digits_eq [OF lt]
    by (simp add: lbl_lt1_000_000_def lbl_sublt10_000_def Let_def d s lbl_lt10_000_eq r)
qed

lemma lbl_lt100_000_000_eq:
  assumes "unat u < 100000000"
  shows "lbl_lt100_000_000 u buffer =
         lbl_done (buffer @ two (unat u div 1000000) @ two (unat u mod 1000000 div 10000)
                   @ two (unat u mod 1000000 mod 10000 div 100)
                   @ two (unat u mod 1000000 mod 10000 mod 100))"
proof -
  have lt: "unat u div 1000000 < 100" using assms by simp
  have d: "sint (u div 1000000) = int (unat u div 1000000)"
    by (rule sint_div) (use lt in simp_all)
  have "int (unat u div 1000000) * 1000000 \<le> 2147483647"
    using lt by simp
  then have s: "subtract_product u (int (unat u div 1000000)) 1000000 = Inr (u mod 1000000)"
    using subtract_product_div [of u 1000000 1000000] by simp
  have r: "unat (u mod 1000000) = unat u mod 1000000"
    by (simp add: unat_mod)
  show ?thesis
    using two_ASCII_digits_eq [OF lt]
    by (simp add: lbl_lt100_000_000_def lbl_sublt1_000_000_def Let_def d s lbl_lt1_000_000_eq r)
qed

lemma naive_decimal_split:
  assumes "100 ^ k \<le> n"
  shows "naive_decimal n = naive_decimal (n div 100 ^ k) @ groups k (n mod 100 ^ k)"
proof -
  have "1 \<le> n div 100 ^ k"
    using assms by (simp add: div_greater_zero_iff Suc_le_eq)
  then have "naive_decimal (n div 100 ^ k * 100 ^ k + n mod 100 ^ k) =
             naive_decimal (n div 100 ^ k) @ groups k (n mod 100 ^ k)"
    by (rule naive_decimal_groups) simp
  then show ?thesis by (simp only: div_mult_mod_eq)
qed

lemma groups_1: "groups (Suc 0) r = two r"
  by simp

lemma groups_2: "groups (Suc (Suc 0)) r = two (r div 100) @ two (r mod 100)"
  by simp

lemma groups_3:
  "groups (Suc (Suc (Suc 0))) r = two (r div 10000) @ two (r mod 10000 div 100) @ two (r mod 10000 mod 100)"
  by simp

lemma groups_4:
  "groups (Suc (Suc (Suc (Suc 0)))) r = two (r div 1000000) @ two (r mod 1000000 div 10000)
       @ two (r mod 1000000 mod 10000 div 100) @ two (r mod 1000000 mod 10000 mod 100)"
  by simp

lemma digit_char_eq: "d < 10 \<Longrightarrow> digit_char (int d) = char_of (48 + d)"
proof -
  assume "d < 10"
  then have "(48 + int d) mod 256 = 48 + int d"
    by simp
  then show ?thesis
    by (simp add: digit_char_def nat_add_distrib)
qed

lemma Fast_ge_1e9:
  assumes "1000000000 \<le> unat u" "unat u < 2200000000"
  shows "FastUInt32ToBufferLeft u = lbl_done (naive_decimal (unat u))"
proof -
  let ?n = "unat u"
  have q: "10 \<le> ?n div 100000000" "?n div 100000000 < 22" using assms by simp_all
  then have q100: "?n div 100000000 < 100" by simp
  have d: "sint (u div 100000000) = int (?n div 100000000)"
    by (rule sint_div) (use q in simp_all)
  have "int (?n div 100000000) * 100000000 \<le> 2147483647"
    using q by simp
  then have s: "subtract_product u (int (?n div 100000000)) 100000000 = Inr (u mod 100000000)"
    using subtract_product_div [of u 100000000 100000000] by simp
  have r: "unat (u mod 100000000) = ?n mod 100000000"
    by (simp add: unat_mod)
  have ge: "u \<ge> 1000000000" using assms by (simp add: word_le_nat_alt)
  have dec: "naive_decimal ?n =
      two (?n div 100000000) @ groups (Suc (Suc (Suc (Suc 0)))) (?n mod 100000000)"
    using naive_decimal_split [of "Suc (Suc (Suc (Suc 0)))" ?n] assms q
    by (simp add: naive_decimal_two)
  show ?thesis
    using two_ASCII_digits_eq [OF q100] ge
    by (simp add: FastUInt32ToBufferLeft_def lbl_sublt100_000_000_def Let_def d s r
        lbl_lt100_000_000_eq dec groups_4)
qed

lemma Fast_overflow:
  assumes "2200000000 \<le> unat u"
  shows "FastUInt32ToBufferLeft u = Inl SignedOverflow"
proof -
  let ?n = "unat u"
  have n: "?n < 4294967296" using unsigned_less [of u, where 'a = nat] by simp
  have q: "22 \<le> ?n div 100000000" "?n div 100000000 < 43" using assms n by simp_all
  have d: "sint (u div 100000000) = int (?n div 100000000)"
    by (rule sint_div) (use q in simp_all)
  have "22 * 100000000 \<le> int (?n div 100000000) * 100000000"
    using q(1) by (intro mult_right_mono) simp_all
  then have "int_times (int (?n div 100000000)) 100000000 = Inl SignedOverflow"
    by (simp add: int_times_def)
  then have s: "subtract_product u (int (?n div 100000000)) 100000000 = Inl SignedOverflow"
    by (simp add: subtract_product_def)
  have ge: "u \<ge> 1000000000" using assms by (simp add: word_le_nat_alt)
  show ?thesis
    using ge by (simp add: FastUInt32ToBufferLeft_def lbl_sublt100_000_000_def Let_def d s)
qed

lemma Fast_lt_10:
  assumes "unat u < 10"
  shows "FastUInt32ToBufferLeft u = lbl_done (naive_decimal (unat u))"
proof -
  have c: "\<not> u \<ge> 1000000000" "u < 100" "\<not> u \<ge> 10"
    using assms by (simp_all add: word_le_nat_alt word_less_nat_alt)
  have "sint u = int (unat u)"
    using assms by (intro sint_small) simp
  moreover have "digit_char (int (unat u)) = char_of (48 + unat u)"
    using assms by (rule digit_char_eq)
  ultimately have dc: "digit_char (sint u) = char_of (48 + unat u)"
    by (simp only:)
  show ?thesis
    unfolding FastUInt32ToBufferLeft_def using c assms
    by (simp add: Let_def dc naive_decimal_digit)
qed

lemma Fast_lt_100:
  assumes "10 \<le> unat u" "unat u < 100"
  shows "FastUInt32ToBufferLeft u = lbl_done (naive_decimal (unat u))"
proof -
  have c: "\<not> u \<ge> 1000000000" "u < 100" "u \<ge> 10"
    using assms by (simp_all add: word_le_nat_alt word_less_nat_alt)
  show ?thesis
    unfolding FastUInt32ToBufferLeft_def using c assms
    by (simp add: Let_def lbl_lt100_eq naive_decimal_two)
qed

lemma Fast_lt_1000:
  assumes "100 \<le> unat u" "unat u < 1000"
  shows "FastUInt32ToBufferLeft u = lbl_done (naive_decimal (unat u))"
proof -
  let ?n = "unat u"
  have q: "1 \<le> ?n div 100" "?n div 100 < 10" using assms by simp_all
  have d: "sint (u div 100) = int (?n div 100)"
    by (rule sint_div) (use q in simp_all)
  have "int (?n div 100) * 100 \<le> 2147483647"
    using q by simp
  then have s: "subtract_product u (int (?n div 100)) 100 = Inr (u mod 100)"
    using subtract_product_div [of u 100 100] by simp
  have r: "unat (u mod 100) = ?n mod 100"
    by (simp add: unat_mod)
  have c: "\<not> u \<ge> 1000000000" "\<not> u < 100" "u < 1000" "\<not> u \<ge> 1000"
    using assms by (simp_all add: word_le_nat_alt word_less_nat_alt)
  have dec: "naive_decimal ?n = [char_of (48 + ?n div 100)] @ groups (Suc 0) (?n mod 100)"
    using naive_decimal_split [of "Suc 0" ?n] assms q
    by (simp add: naive_decimal_digit)
  have "FastUInt32ToBufferLeft u =
      lbl_sublt100 u (int (?n div 100)) [digit_char (int (?n div 100))]"
    unfolding FastUInt32ToBufferLeft_def using c
    by (simp add: word_le_nat_alt word_less_nat_alt Let_def d)
  then show ?thesis
    using q by (simp add: lbl_sublt100_def s lbl_lt100_eq r digit_char_eq dec groups_1)
qed

lemma Fast_lt_10000:
  assumes "1000 \<le> unat u" "unat u < 10000"
  shows "FastUInt32ToBufferLeft u = lbl_done (naive_decimal (unat u))"
proof -
  let ?n = "unat u"
  have q: "10 \<le> ?n div 100" "?n div 100 < 100" using assms by simp_all
  have c: "\<not> u \<ge> 1000000000" "\<not> u < 1000" "u < 10000" "u \<ge> 1000"
    using assms by (simp_all add: word_le_nat_alt word_less_nat_alt)
  have dec: "naive_decimal ?n = two (?n div 100) @ groups (Suc 0) (?n mod 100)"
    using naive_decimal_split [of "Suc 0" ?n] assms q
    by (simp add: naive_decimal_two)
  have "FastUInt32ToBufferLeft u = lbl_lt10_000 u []"
    unfolding FastUInt32ToBufferLeft_def using c
    by (simp add: word_le_nat_alt word_less_nat_alt)
  then show ?thesis
    using assms by (simp add: lbl_lt10_000_eq dec groups_1)
qed

lemma Fast_lt_100000:
  assumes "10000 \<le> unat u" "unat u < 100000"
  shows "FastUInt32ToBufferLeft u = lbl_done (naive_decimal (unat u))"
proof -
  let ?n = "unat u"
  have q: "1 \<le> ?n div 10000" "?n div 10000 < 10" using assms by simp_all
  have d: "sint (u div 10000) = int (?n div 10000)"
    by (rule sint_div) (use q in simp_all)
  have "int (?n div 10000) * 10000 \<le> 2147483647"
    using q by simp
  then have s: "subtract_product u (int (?n div 10000)) 10000 = Inr (u mod 10000)"
    using subtract_product_div [of u 10000 10000] by simp
  have r: "unat (u mod 10000) = ?n mod 10000"
    by (simp add: unat_mod)
  have c: "\<not> u \<ge> 1000000000" "\<not> u < 10000" "u < 100000" "\<not> u \<ge> 100000"
    using assms by (simp_all add: word_le_nat_alt word_less_nat_alt)
  have dec: "naive_decimal ?n = [char_of (48 + ?n div 10000)] @ groups (Suc (Suc 0)) (?n mod 10000)"
    using naive_decimal_split [of "Suc (Suc 0)" ?n] assms q
    by (simp add: naive_decimal_digit)
  have "FastUInt32ToBufferLeft u =
      lbl_sublt10_000 u (int (?n div 10000)) [digit_char (int (?n div 10000))]"
    unfolding FastUInt32ToBufferLeft_def using c
    by (simp add: word_le_nat_alt word_less_nat_alt Let_def d)
  then show ?thesis
    using q by (simp add: lbl_sublt10_000_def s lbl_lt10_000_eq r digit_char_eq dec groups_2)
qed

lemma Fast_lt_1000000:
  assumes "100000 \<le> unat u" "unat u < 1000000"
  shows "FastUInt32ToBufferLeft u = lbl_done (naive_decimal (unat u))"
proof -
  let ?n = "unat u"
  have q: "10 \<le> ?n div 10000" "?n div 10000 < 100" using assms by simp_all
  have c: "\<not> u \<ge> 1000000000" "\<not> u < 100000" "u < 1000000" "u \<ge> 100000"
    using assms by (simp_all add: word_le_nat_alt word_less_nat_alt)
  have dec: "naive_decimal ?n = two (?n div 10000) @ groups (Suc (Suc 0)) (?n mod 10000)"
    using naive_decimal_split [of "Suc (Suc 0)" ?n] assms q
    by (simp add: naive_decimal_two)
  have "FastUInt32ToBufferLeft u = lbl_lt1_000_000 u []"
    unfolding FastUInt32ToBufferLeft_def using c
    by (simp add: word_le_nat_alt word_less_nat_alt)
  then show ?thesis
    using assms by (simp add: lbl_lt1_000_000_eq dec groups_2)
qed

lemma Fast_lt_10000000:
  assumes "1000000 \<le> unat u" "unat u < 10000000"
  shows "FastUInt32ToBufferLeft u = lbl_done (naive_decimal (unat u))"
proof -
  let ?n = "unat u"
  have q: "1 \<le> ?n div 1000000" "?n div 1000000 < 10" using assms by simp_all
  have d: "sint (u div 1000000) = int (?n div 1000000)"
    by (rule sint_div) (use q in simp_all)
  have "int (?n div 1000000) * 1000000 \<le> 2147483647"
    using q by simp
  then have s: "subtract_product u (int (?n div 1000000)) 1000000 = Inr (u mod 1000000)"
    using subtract_product_div [of u 1000000 1000000] by simp
  have r: "unat (u mod 1000000) = ?n mod 1000000"
    by (simp add: unat_mod)
  have c: "\<not> u \<ge> 1000000000" "\<not> u < 1000000" "u < 10000000" "\<not> u \<ge> 10000000"
    using assms by (simp_all add: word_le_nat_alt word_less_nat_alt)
  have dec: "naive_decimal ?n = [char_of (48 + ?n div 1000000)] @ groups (Suc (Suc (Suc 0))) (?n mod 1000000)"
    using naive_decimal_split [of "Suc (Suc (Suc 0))" ?n] assms q
    by (simp add: naive_decimal_digit)
  have "FastUInt32ToBufferLeft u =
      lbl_sublt1_000_000 u (int (?n div 1000000)) [digit_char (int (?n div 1000000))]"
    unfolding FastUInt32ToBufferLeft_def using c
    by (simp add: word_le_nat_alt word_less_nat_alt Let_def d)
  then show ?thesis
    using q by (simp add: lbl_sublt1_000_000_def s lbl_lt1_000_000_eq r digit_char_eq dec groups_3)
qed

lemma Fast_lt_100000000:
  assumes "10000000 \<le> unat u" "unat u < 100000000"
  shows "FastUInt32ToBufferLeft u = lbl_done (naive_decimal (unat u))"
proof -
  let ?n = "unat u"
  have q: "10 \<le> ?n div 1000000" "?n div 1000000 < 100" using assms by simp_all
  have c: "\<not> u \<ge> 1000000000" "\<not> u < 10000000" "u < 100000000" "u \<ge> 10000000"
    using assms by (simp_all add: word_le_nat_alt word_less_nat_alt)
  have dec: "naive_decimal ?n = two (?n div 1000000) @ groups (Suc (Suc (Suc 0))) (?n mod 1000000)"
    using naive_decimal_split [of "Suc (Suc (Suc 0))" ?n] assms q
    by (simp add: naive_decimal_two)
  have "FastUInt32ToBufferLeft u = lbl_lt100_000_000 u []"
    unfolding FastUInt32ToBufferLeft_def using c
    by (simp add: word_le_nat_alt word_less_nat_alt)
  then show ?thesis
    using assms by (simp add: lbl_lt100_000_000_eq dec groups_3)
qed

lemma Fast_lt_1000000000:
  assumes "100000000 \<le> unat u" "unat u < 1000000000"
  shows "FastUInt32ToBufferLeft u = lbl_done (naive_decimal (unat u))"
proof -
  let ?n = "unat u"
  have q: "1 \<le> ?n div 100000000" "?n div 100000000 < 10" using assms by simp_all
  have d: "sint (u div 100000000) = int (?n div 100000000)"
    by (rule sint_div) (use q in simp_all)
  have "int (?n div 100000000) * 100000000 \<le> 2147483647"
    using q by simp
  then have s: "subtract_product u (int (?n div 100000000)) 100000000 = Inr (u mod 100000000)"
    using subtract_product_div [of u 100000000 100000000] by simp
  have r: "unat (u mod 100000000) = ?n mod 100000000"
    by (simp add: unat_mod)
  have c: "\<not> u \<ge> 1000000000" "\<not> u < 100000000" "u < 1000000000" "\<not> u \<ge> 1000000000"
    using assms by (simp_all add: word_le_nat_alt word_less_nat_alt)
  have dec: "naive_decimal ?n = [char_of (48 + ?n div 100000000)] @ groups (Suc (Suc (Suc (Suc 0)))) (?n mod 100000000)"
    using naive_decimal_split [of "Suc (Suc (Suc (Suc 0)))" ?n] assms q
    by (simp add: naive_decimal_digit)
  have "FastUInt32ToBufferLeft u =
      lbl_sublt100_000_000 u (int (?n div 100000000)) [digit_char (int (?n div 100000000))]"
    unfolding FastUInt32ToBufferLeft_def using c
    by (simp add: word_le_nat_alt word_less_nat_alt Let_def d)
  then show ?thesis
    using q by (simp add: lbl_sublt100_000_000_def s lbl_lt100_000_000_eq r digit_char_eq dec groups_4)
qed

text \<open>
  Where no product overflows, that is for every \<open>u\<close> below 2200000000, the function
  writes the decimal representation of \<open>u\<close> and the terminating NUL and returns the
  pointer to the NUL; from 2200000000 on, \<open>digits\<close> is at least 22 and
  \<open>digits * 100000000\<close> exceeds the largest \<open>int\<close>.
\<close>

lemma FastUInt32ToBufferLeft_decimal_below:
  assumes "unat u < 2200000000"
  shows "FastUInt32ToBufferLeft u =
     Inr (naive_decimal (unat u) @ [CHR 0x00], length (naive_decimal (unat u)))"
proof -
  consider "unat u < 10" | "10 \<le> unat u" "unat u < 100"
    | "100 \<le> unat u" "unat u < 1000" | "1000 \<le> unat u" "unat u < 10000"
    | "10000 \<le> unat u" "unat u < 100000" | "100000 \<le> unat u" "unat u < 1000000"
    | "1000000 \<le> unat u" "unat u < 10000000" | "10000000 \<le> unat u" "unat u < 100000000"
    | "100000000 \<le> unat u" "unat u < 1000000000"
    | "1000000000 \<le> unat u" "unat u < 2200000000"
    using assms by linarith
  then have "FastUInt32ToBufferLeft u = lbl_done (naive_decimal (unat u))"
    by cases (fact Fast_lt_10 Fast_lt_100 Fast_lt_1000 Fast_lt_10000 Fast_lt_100000
        Fast_lt_1000000 Fast_lt_10000000 Fast_lt_100000000 Fast_lt_1000000000 Fast_ge_1e9)+
  then show ?thesis by (simp add: lbl_done_def)
qed

lemma FastUInt32ToBufferLeft_overflow_iff:
  "(FastUInt32ToBufferLeft u = Inl SignedOverflow) = (2200000000 \<le> unat u)"
  using Fast_overflow [of u] FastUInt32ToBufferLeft_decimal_below [of u]
  by (cases "2200000000 \<le> unat u") simp_all

text \<open>
  Claim C9 says that for every \<open>uint32\<close> value \<open>u\<close> the function writes the decimal
  representation of \<open>u\<close>, as a naive formatter would. At \<open>u = 2200000000\<close> the
  code computes \<open>digits = 22\<close> and then the \<open>int\<close> product \<open>22 * 100000000\<close>,
  which overflows: the behaviour is undefined, and no string is guaranteed.
\<close>

theorem FastUInt32ToBufferLeft_signed_overflow:
  "FastUInt32ToBufferLeft 2200000000 = Inl SignedOverflow
   \<and> FastUInt32ToBufferLeft 2200000000 \<noteq>
       Inr (naive_decimal 2200000000 @ [CHR 0x00], length (naive_decimal 2200000000))
   \<and> FastUInt32ToBufferLeft 2199999999 =
       Inr (naive_decimal 2199999999 @ [CHR 0x00], length (naive_decimal 2199999999))"
proof -
  have "unat (2200000000 :: 32 word) = 2200000000"
    by simp
  then have over: "FastUInt32ToBufferLeft 2200000000 = Inl SignedOverflow"
    using Fast_overflow [of 2200000000] by simp
  have "unat (2199999999 :: 32 word) = 2199999999"
    by simp
  then have below: "FastUInt32ToBufferLeft 2199999999 =
      Inr (naive_decimal 2199999999 @ [CHR 0x00], length (naive_decimal 2199999999))"
    using FastUInt32ToBufferLeft_decimal_below [of 2199999999] by simp
  from over below show ?thesis
    by simp
qed


section \<open>Properties of AutoDigitStrCmp\<close>

lemma compare_runs_swap: "compare_runs ys xs = map_option uminus (compare_runs xs ys)"
  by (induction xs ys rule: compare_runs.induct) (auto elim: compare_runs.elims)

lemma AutoDigitStrCmp_swap: "AutoDigitStrCmp b a strict = - AutoDigitStrCmp a b strict"
proof (induction a b strict rule: AutoDigitStrCmp.induct)
  case (4 x xs y ys strict)
  show ?case
  proof (cases "isdigit x \<and> isdigit y")
    case False
    with 4(2) show ?thesis by auto
  next
    case True
    define a1 where "a1 = dropWhile (\<lambda>c. c = CHR ''0'') (x # xs)"
    define b1 where "b1 = dropWhile (\<lambda>c. c = CHR ''0'') (y # ys)"
    define arun where "arun = takeWhile isdigit a1"
    define brun where "brun = takeWhile isdigit b1"
    note defs = a1_def b1_def arun_def brun_def
    have sw: "compare_runs brun arun = map_option uminus (compare_runs arun brun)"
      by (rule compare_runs_swap)
    show ?thesis
    proof (cases "length arun = length brun \<and> compare_runs arun brun = None
        \<and> \<not> (strict \<and> length (x # xs) - length a1 \<noteq> length (y # ys) - length b1)")
      case False
      with True sw show ?thesis
        unfolding AutoDigitStrCmp.simps Let_def defs [symmetric]
        by (auto split: option.splits)
    next
      case rec: True
      have "AutoDigitStrCmp (dropWhile isdigit b1) (dropWhile isdigit a1) strict =
          - AutoDigitStrCmp (dropWhile isdigit a1) (dropWhile isdigit b1) strict"
        using rec 4(1) [OF True refl refl refl refl refl refl refl refl]
        by (auto simp: defs)
      with True rec sw show ?thesis
        unfolding AutoDigitStrCmp.simps Let_def defs [symmetric]
        by (auto split: option.splits)
    qed
  qed
qed simp_all


lemma zero_isdigit: "isdigit CHR ''0''"
  by (simp add: isdigit_def)

lemma dropWhile_digits_after_zeroes:
  "dropWhile isdigit (dropWhile (\<lambda>c. c = CHR ''0'') xs) = dropWhile isdigit xs"
  by (induction xs) (auto simp: zero_isdigit)

lemma takeWhile_digits_after_zeroes:
  "takeWhile isdigit (dropWhile (\<lambda>c. c = CHR ''0'') xs) =
   dropWhile (\<lambda>c. c = CHR ''0'') (takeWhile isdigit xs)"
  by (induction xs) (auto simp: zero_isdigit)

lemma zeroes_then_rest:
  "xs = replicate (length xs - length (dropWhile (\<lambda>c. c = CHR ''0'') xs)) CHR ''0''
        @ dropWhile (\<lambda>c. c = CHR ''0'') xs"
proof (induction xs)
  case Nil
  show ?case by simp
next
  case (Cons x xs)
  have "length (dropWhile (\<lambda>c. c = CHR ''0'') xs) \<le> length xs"
    by (rule length_dropWhile_le)
  then have "Suc (length xs) - length (dropWhile (\<lambda>c. c = CHR ''0'') xs) =
      Suc (length xs - length (dropWhile (\<lambda>c. c = CHR ''0'') xs))"
    by (rule Suc_diff_le)
  with Cons show ?case by auto
qed

lemma char_value_inj: "char_value x = char_value y \<Longrightarrow> x = y"
proof -
  assume h: "char_value x = char_value y"
  define m n where "m = (of_char x :: nat)" and "n = (of_char y :: nat)"
  have "m < 256" and "n < 256"
    by (simp_all add: m_def n_def)
  moreover have "(if int m < 128 then int m else int m - 256) =
      (if int n < 128 then int n else int n - 256)"
    using h unfolding char_value_def Let_def m_def n_def .
  ultimately have "m = n"
    by (simp split: if_splits)
  then have "(of_char x :: nat) = of_char y"
    by (simp add: m_def n_def)
  then show "x = y" by simp
qed

lemma compare_runs_refl: "compare_runs xs xs = None"
  by (induction xs) simp_all

lemma compare_runs_None:
  "length xs = length ys \<Longrightarrow> compare_runs xs ys = None \<Longrightarrow> xs = ys"
proof (induction xs ys rule: list_induct2)
  case Nil
  show ?case by simp
next
  case (Cons x xs y ys)
  then show ?case
    by (auto split: if_splits intro: char_value_inj)
qed



lemma compare_runs_Some: "compare_runs xs ys = Some r \<Longrightarrow> r = - 1 \<or> r = 1"
  by (induction xs ys rule: compare_runs.induct) (auto split: if_splits)

lemma AutoDigitStrCmp_digits:
  assumes "isdigit x \<and> isdigit y"
    and "a1 = dropWhile (\<lambda>c. c = CHR ''0'') (x # xs)"
    and "b1 = dropWhile (\<lambda>c. c = CHR ''0'') (y # ys)"
  shows "AutoDigitStrCmp (x # xs) (y # ys) strict =
    (if length (takeWhile isdigit a1) < length (takeWhile isdigit b1) then - 1
     else if length (takeWhile isdigit a1) > length (takeWhile isdigit b1) then 1
     else
       (case compare_runs (takeWhile isdigit a1) (takeWhile isdigit b1) of
          Some r \<Rightarrow> r
        | None \<Rightarrow>
            if strict \<and> length (x # xs) - length a1 \<noteq> length (y # ys) - length b1 then
              (if length (x # xs) - length a1 > length (y # ys) - length b1 then - 1 else 1)
            else AutoDigitStrCmp (dropWhile isdigit a1) (dropWhile isdigit b1) strict))"
  using assms(1) unfolding assms(2,3) AutoDigitStrCmp.simps Let_def by simp

lemma AutoDigitStrCmp_same: "a = b \<longrightarrow> AutoDigitStrCmp a b strict = 0"
proof (induction a b strict rule: AutoDigitStrCmp.induct)
  case (4 x xs y ys strict)
  show ?case
  proof (cases "isdigit x \<and> isdigit y")
    case False
    with 4(2) show ?thesis by auto
  next
    case True
    show ?thesis
    proof
      assume eq: "x # xs = y # ys"
      define a1 where "a1 = dropWhile (\<lambda>c. c = CHR ''0'') (x # xs)"
      have b1: "a1 = dropWhile (\<lambda>c. c = CHR ''0'') (y # ys)"
        using eq by (simp add: a1_def)
      have "AutoDigitStrCmp (dropWhile isdigit a1) (dropWhile isdigit a1) strict = 0"
        using 4(1) [OF True a1_def b1 refl refl refl refl refl refl] eq
        by (simp add: compare_runs_refl)
      then show "AutoDigitStrCmp (x # xs) (y # ys) strict = 0"
        unfolding AutoDigitStrCmp_digits [OF True a1_def b1]
        using eq by (simp add: compare_runs_refl)
    qed
  qed
qed simp_all

lemma AutoDigitStrCmp_strict_zero:
  "strict \<longrightarrow> AutoDigitStrCmp a b strict = 0 \<longrightarrow> a = b"
proof (induction a b strict rule: AutoDigitStrCmp.induct)
  case (4 x xs y ys strict)
  show ?case
  proof (cases "isdigit x \<and> isdigit y")
    case False
    with 4(2) show ?thesis
      by (auto split: if_splits dest: char_value_inj)
  next
    case True
    show ?thesis
    proof (intro impI)
      assume s: strict and z: "AutoDigitStrCmp (x # xs) (y # ys) strict = 0"
      define a1 where "a1 = dropWhile (\<lambda>c. c = CHR ''0'') (x # xs)"
      define b1 where "b1 = dropWhile (\<lambda>c. c = CHR ''0'') (y # ys)"
      note step = AutoDigitStrCmp_digits [OF True a1_def b1_def, of strict]
      have len: "length (takeWhile isdigit a1) = length (takeWhile isdigit b1)"
        using z unfolding step by (simp split: if_splits)
      have cr: "compare_runs (takeWhile isdigit a1) (takeWhile isdigit b1) = None"
        using z len unfolding step by (auto split: option.splits dest: compare_runs_Some)
      have zs: "length (x # xs) - length a1 = length (y # ys) - length b1"
        using z len cr s unfolding step by (simp split: if_splits)
      have "AutoDigitStrCmp (dropWhile isdigit a1) (dropWhile isdigit b1) strict = 0"
        using z len cr zs unfolding step by simp
      moreover have "strict \<longrightarrow>
          AutoDigitStrCmp (dropWhile isdigit a1) (dropWhile isdigit b1) strict = 0 \<longrightarrow>
          dropWhile isdigit a1 = dropWhile isdigit b1"
        using len cr zs by (intro 4(1) [OF True a1_def b1_def refl refl refl refl refl refl]) simp_all
      ultimately have rest: "dropWhile isdigit a1 = dropWhile isdigit b1"
        using s by simp
      have run: "takeWhile isdigit a1 = takeWhile isdigit b1"
        using len cr by (rule compare_runs_None)
      have "a1 = takeWhile isdigit a1 @ dropWhile isdigit a1"
        by simp
      also have "\<dots> = takeWhile isdigit b1 @ dropWhile isdigit b1"
        by (simp only: run rest)
      finally have ab: "a1 = b1" by simp
      have "x # xs = replicate (length (x # xs) - length a1) CHR ''0'' @ a1"
        unfolding a1_def by (rule zeroes_then_rest)
      also have "\<dots> = replicate (length (y # ys) - length b1) CHR ''0'' @ a1"
        by (simp only: zs)
      also have "\<dots> = replicate (length (y # ys) - length b1) CHR ''0'' @ b1"
        by (simp only: ab)
      also have "\<dots> = y # ys"
        unfolding b1_def by (rule zeroes_then_rest [symmetric])
      finally show "x # xs = y # ys" .
    qed
  qed
qed simp_all

lemma AutoDigitStrCmp_tokens:
  "\<not> strict \<longrightarrow> tokens a = tokens b \<longrightarrow> AutoDigitStrCmp a b strict = 0"
proof (induction a b strict rule: AutoDigitStrCmp.induct)
  case (4 x xs y ys strict)
  show ?case
  proof (cases "isdigit x \<and> isdigit y")
    case False
    with 4(2) show ?thesis
      by (auto split: if_splits)
  next
    case True
    show ?thesis
    proof (intro impI)
      assume s: "\<not> strict" and t: "tokens (x # xs) = tokens (y # ys)"
      define a1 where "a1 = dropWhile (\<lambda>c. c = CHR ''0'') (x # xs)"
      define b1 where "b1 = dropWhile (\<lambda>c. c = CHR ''0'') (y # ys)"
      note step = AutoDigitStrCmp_digits [OF True a1_def b1_def, of strict]
      from t True have
        run0: "dropWhile (\<lambda>c. c = CHR ''0'') (takeWhile isdigit (x # xs)) =
               dropWhile (\<lambda>c. c = CHR ''0'') (takeWhile isdigit (y # ys))"
        and rest0: "tokens (dropWhile isdigit (x # xs)) = tokens (dropWhile isdigit (y # ys))"
        by simp_all
      have run: "takeWhile isdigit a1 = takeWhile isdigit b1"
        unfolding a1_def b1_def takeWhile_digits_after_zeroes by (rule run0)
      have rest: "tokens (dropWhile isdigit a1) = tokens (dropWhile isdigit b1)"
        unfolding a1_def b1_def dropWhile_digits_after_zeroes by (rule rest0)
      have "\<not> strict \<longrightarrow> tokens (dropWhile isdigit a1) = tokens (dropWhile isdigit b1) \<longrightarrow>
          AutoDigitStrCmp (dropWhile isdigit a1) (dropWhile isdigit b1) strict = 0"
        using run s
        by (intro 4(1) [OF True a1_def b1_def refl refl refl refl refl refl])
           (simp_all add: compare_runs_refl)
      with s rest have "AutoDigitStrCmp (dropWhile isdigit a1) (dropWhile isdigit b1) strict = 0"
        by simp
      then show "AutoDigitStrCmp (x # xs) (y # ys) strict = 0"
        unfolding step using s run by (simp add: compare_runs_refl)
    qed
  qed
qed simp_all


text \<open>
  Claim C10. For all byte strings \<open>a\<close> and \<open>b\<close> and both values of the strict flag,
  \<open>AutoDigitStrCmp\<close> of \<open>a\<close> and \<open>b\<close> and of \<open>b\<close> and \<open>a\<close> are opposite (so of
  opposite signs, and zero together). In non-strict mode two strings whose corresponding
  digit runs are numerically equal, such as \<open>01\<close> and \<open>1\<close>, compare equal; in strict
  mode only identical strings compare equal, so these do not.
\<close>

theorem AutoDigitStrCmp_antisymmetric:
  "AutoDigitStrCmp b a strict = - AutoDigitStrCmp a b strict
   \<and> sgn (AutoDigitStrCmp b a strict) = - sgn (AutoDigitStrCmp a b strict)
   \<and> (AutoDigitStrCmp b a strict = 0 \<longleftrightarrow> AutoDigitStrCmp a b strict = 0)
   \<and> (tokens a = tokens b \<longrightarrow> AutoDigitStrCmp a b False = 0)
   \<and> (AutoDigitStrCmp a b True = 0 \<longleftrightarrow> a = b)
   \<and> AutoDigitStrCmp ''01'' ''1'' False = 0
   \<and> AutoDigitStrCmp ''01'' ''1'' True = - 1"
proof (intro conjI)
  show sw: "AutoDigitStrCmp b a strict = - AutoDigitStrCmp a b strict"
    by (rule AutoDigitStrCmp_swap)
  then show "sgn (AutoDigitStrCmp b a strict) = - sgn (AutoDigitStrCmp a b strict)"
    by simp
  from sw show "AutoDigitStrCmp b a strict = 0 \<longleftrightarrow> AutoDigitStrCmp a b strict = 0"
    by simp
  show "tokens a = tokens b \<longrightarrow> AutoDigitStrCmp a b False = 0"
    using AutoDigitStrCmp_tokens [of False a b] by simp
  show "AutoDigitStrCmp a b True = 0 \<longleftrightarrow> a = b"
    using AutoDigitStrCmp_strict_zero [of True a b] AutoDigitStrCmp_same [of a b True] by blast
  show "AutoDigitStrCmp ''01'' ''1'' False = 0"
    by (simp add: isdigit_def char_value_def)
  show "AutoDigitStrCmp ''01'' ''1'' True = - 1"
    by (simp add: isdigit_def char_value_def)
qed

theorem AutoDigitStrCmp_antisymmetric_witness:
  "tokens ''x007y'' = tokens ''x7y''
   \<and> AutoDigitStrCmp ''x007y'' ''x7y'' False = 0
   \<and> AutoDigitStrCmp ''x7y'' ''x007y'' False = 0
   \<and> AutoDigitStrCmp ''x007y'' ''x7y'' True \<noteq> 0
   \<and> AutoDigitStrCmp ''x7y'' ''x007y'' True = - AutoDigitStrCmp ''x007y'' ''x7y'' True"
proof -
  have t: "tokens ''x007y'' = tokens ''x7y''"
    by (simp add: isdigit_def)
  show ?thesis
    using t AutoDigitStrCmp_antisymmetric [of "''x7y''" "''x007y''" False]
      AutoDigitStrCmp_antisymmetric [of "''x7y''" "''x007y''" True]
    by simp
qed


end
